theory Spec2Isabelle
  imports Complex_Main "HOL-Library.Word"
begin

section \<open>The byte buffer of the PDF reader\<close>

text \<open>
  The reader of \<^verbatim>\<open>src/gui/pdfparser/pdfreader.cpp\<close> works on a buffer
  \<^verbatim>\<open>mData\<close> of \<^verbatim>\<open>mSize\<close> bytes. The buffer is a \<^typ>\<open>string\<close>
  (a list of bytes), positions are \<^typ>\<open>int\<close> as the source's \<^verbatim>\<open>qint64\<close>
  (files stay far below \<open>2^63\<close> bytes, so position arithmetic does not wrap).

  The source reads \<^verbatim>\<open>mData[pos]\<close> without a bounds check in several places, and the
  C library functions it calls (\<^verbatim>\<open>strtoul\<close>, \<^verbatim>\<open>strncmp\<close>) read until a byte
  stops them. A read outside the buffer is modelled as the byte 0: the buffer is taken
  to be followed by NUL bytes, as a \<^verbatim>\<open>QByteArray\<close> and a memory-mapped file (up
  to the page boundary) are.
\<close>

definition mSize :: "string \<Rightarrow> int" where
  "mSize d = int (length d)"

text \<open>\<^verbatim>\<open>mData + pos\<close>: the bytes from \<open>pos\<close> on.\<close>

definition suffix_at :: "string \<Rightarrow> int \<Rightarrow> string" where
  "suffix_at d pos = (if 0 \<le> pos then drop (nat pos) d else [])"

text \<open>The first byte of a C string; the empty list stands for the terminating NUL.\<close>

fun first_byte :: "string \<Rightarrow> char" where
  "first_byte [] = CHR 0x00"
| "first_byte (c # cs) = c"

text \<open>\<^verbatim>\<open>mData[pos]\<close>\<close>

definition byte_at :: "string \<Rightarrow> int \<Rightarrow> char" where
  "byte_at d pos = first_byte (suffix_at d pos)"

definition ord :: "char \<Rightarrow> nat" where
  "ord c = of_char c"

section \<open>Character classes and the C library's number scanners\<close>

text \<open>\<^verbatim>\<open>isspace\<close> in the C locale: space, \<^verbatim>\<open>\t \n \v \f \r\<close>.\<close>

definition isspace :: "char \<Rightarrow> bool" where
  "isspace c = (c = CHR '' '' \<or> c = CHR 0x09 \<or> c = CHR 0x0A \<or> c = CHR 0x0B
                 \<or> c = CHR 0x0C \<or> c = CHR 0x0D)"

definition isdigit :: "char \<Rightarrow> bool" where
  "isdigit c = (48 \<le> ord c \<and> ord c \<le> 57)"

text \<open>The value of a run of decimal digits, most significant first.\<close>

definition digit_val :: "char \<Rightarrow> nat" where
  "digit_val c = ord c - 48"

fun decimal_acc :: "int \<Rightarrow> string \<Rightarrow> int" where
  "decimal_acc acc [] = acc"
| "decimal_acc acc (c # cs) = decimal_acc (acc * 10 + int (digit_val c)) cs"

definition decimal :: "string \<Rightarrow> int" where
  "decimal ds = decimal_acc 0 ds"

text \<open>
  \<^verbatim>\<open>strtoul(s, &end, 10)\<close> and \<^verbatim>\<open>strtoull\<close> on an LP64 platform (both 64 bits):
  leading white space is skipped, one sign is accepted, then the longest run of digits is
  read. The result is the pair of the value and of \<^verbatim>\<open>end - s\<close>; with no digit there
  is no conversion and \<^verbatim>\<open>end = s\<close>. A value that does not fit is \<^verbatim>\<open>ULONG_MAX\<close>;
  a minus sign negates modulo \<open>2^64\<close>.
\<close>

definition scan_sign :: "string \<Rightarrow> bool \<times> string" where
  "scan_sign s = (if first_byte s = CHR ''-'' then (True, tl s)
                  else if first_byte s = CHR ''+'' then (False, tl s)
                  else (False, s))"

definition strtoul :: "string \<Rightarrow> int \<times> nat" where
  "strtoul s =
     (let s1 = dropWhile isspace s;
          (neg, s2) = scan_sign s1;
          ds = takeWhile isdigit s2
      in if ds = [] then (0, 0)
         else (let v = decimal ds;
                   r = (if 2 ^ 64 \<le> v then 2 ^ 64 - 1
                        else if neg then (2 ^ 64 - v) mod 2 ^ 64 else v)
               in (r, length s - length s2 + length ds)))"

text \<open>
  \<^verbatim>\<open>strtoll(s, &end, 10)\<close>: the same scan, the value clamped to
  \<^verbatim>\<open>LLONG_MIN .. LLONG_MAX\<close>.
\<close>

definition strtoll :: "string \<Rightarrow> int \<times> nat" where
  "strtoll s =
     (let s1 = dropWhile isspace s;
          (neg, s2) = scan_sign s1;
          ds = takeWhile isdigit s2
      in if ds = [] then (0, 0)
         else (let v = decimal ds;
                   r = (if neg then max (- (2 ^ 63)) (- v) else min (2 ^ 63 - 1) v)
               in (r, length s - length s2 + length ds)))"

section \<open>Lexical primitives of the reader\<close>

text \<open>
  \<^verbatim>\<open>Reader::isDelim\<close>: \<^verbatim>\<open>isspace(c) || strchr("()<>[]{}/%", c)\<close>. \<^verbatim>\<open>strchr\<close>
  finds the terminating NUL of its string too, so the byte 0 is a delimiter.
\<close>

definition isDelimChar :: "char \<Rightarrow> bool" where
  "isDelimChar c = (isspace c \<or> c \<in> set ''()<>[]{}/%'' \<or> c = CHR 0x00)"

definition isDelim :: "string \<Rightarrow> int \<Rightarrow> bool" where
  "isDelim d pos = isDelimChar (byte_at d pos)"

function skipSpace :: "string \<Rightarrow> int \<Rightarrow> int" where
  "skipSpace d pos =
     (if pos < mSize d \<and> isspace (byte_at d pos) then skipSpace d (pos + 1) else pos)"
  by pat_completeness auto
termination
  by (relation "measure (\<lambda>(d, pos). nat (mSize d - pos))") auto

declare skipSpace.simps [simp del]

text \<open>
  \<^verbatim>\<open>strncmp(mData + pos, str, len) == 0\<close> for a \<open>str\<close> of \<open>len\<close> bytes, none of
  them NUL: the next \<open>len\<close> bytes are those of \<open>str\<close>.
\<close>

definition strncmp_eq :: "string \<Rightarrow> int \<Rightarrow> string \<Rightarrow> bool" where
  "strncmp_eq d pos str = (take (length str) (suffix_at d pos) = str)"

definition compareStr :: "string \<Rightarrow> int \<Rightarrow> string \<Rightarrow> bool" where
  "compareStr d pos str =
     (mSize d - pos > int (length str) \<and> strncmp_eq d pos str)"

definition compareWord :: "string \<Rightarrow> int \<Rightarrow> string \<Rightarrow> bool" where
  "compareWord d pos str =
     (mSize d - pos > int (length str) + 1 \<and> strncmp_eq d pos str
      \<and> isDelim d (pos + int (length str)))"

function indexOfFrom :: "string \<Rightarrow> string \<Rightarrow> int \<Rightarrow> int" where
  "indexOfFrom d str i =
     (if i < mSize d - int (length str)
      then (if strncmp_eq d i str then i else indexOfFrom d str (i + 1))
      else - 1)"
  by pat_completeness auto
termination
  by (relation "measure (\<lambda>(d, str, i). nat (mSize d - int (length str) - i))") auto

declare indexOfFrom.simps [simp del]

definition indexOf :: "string \<Rightarrow> string \<Rightarrow> int \<Rightarrow> int" where
  "indexOf d str from = indexOfFrom d str from"

function indexOfBackFrom :: "string \<Rightarrow> string \<Rightarrow> int \<Rightarrow> int" where
  "indexOfBackFrom d str i =
     (if i > 0
      then (if strncmp_eq d i str then i else indexOfBackFrom d str (i - 1))
      else - 1)"
  by pat_completeness auto
termination
  by (relation "measure (\<lambda>(d, str, i). nat i)") auto

declare indexOfBackFrom.simps [simp del]

definition indexOfBack :: "string \<Rightarrow> string \<Rightarrow> int \<Rightarrow> int" where
  "indexOfBack d str from = indexOfBackFrom d str (from - int (length str) + 1)"

text \<open>
  \<^verbatim>\<open>Reader::skipCRLF\<close>: the loop runs over every byte that is a line feed or a carriage
  return and returns the first position whose byte is neither.
\<close>

lemma byte_at_in_buffer:
  assumes "byte_at d pos \<noteq> CHR 0x00"
  shows "0 \<le> pos \<and> pos < mSize d"
proof -
  from assms have "suffix_at d pos \<noteq> []"
    by (auto simp: byte_at_def)
  then have "0 \<le> pos" and "drop (nat pos) d \<noteq> []"
    by (auto simp: suffix_at_def split: if_splits)
  then show ?thesis
    by (simp add: mSize_def)
qed

function skipCRLF :: "string \<Rightarrow> int \<Rightarrow> int" where
  "skipCRLF d pos =
     (if pos \<ge> 0
      then (if byte_at d pos \<noteq> CHR 0x0A \<and> byte_at d pos \<noteq> CHR 0x0D then pos
            else skipCRLF d (pos + 1))
      else 0)"
  by pat_completeness auto
termination
proof (relation "measure (\<lambda>(d, pos). nat (mSize d - pos))")
  show "wf (measure (\<lambda>(d, pos). nat (mSize d - pos)))" by simp
next
  fix d :: string and pos :: int
  assume "\<not> (byte_at d pos \<noteq> CHR 0x0A \<and> byte_at d pos \<noteq> CHR 0x0D)"
  then have "byte_at d pos \<noteq> CHR 0x00" by auto
  then have "pos < mSize d" using byte_at_in_buffer by blast
  then show "((d, pos + 1), (d, pos)) \<in> measure (\<lambda>(d, pos). nat (mSize d - pos))"
    by simp
qed

declare skipCRLF.simps [simp del]

text \<open>
  \<^verbatim>\<open>Reader::readUInt\<close>: the value is cut to the 32 bits of \<^verbatim>\<open>quint32\<close>;
  the result is \<open>(res, ok, pos)\<close>.
\<close>

definition readUInt :: "string \<Rightarrow> int \<Rightarrow> 32 word \<times> bool \<times> int" where
  "readUInt d pos =
     (let (v, n) = strtoul (suffix_at d pos)
      in (word_of_int v, n \<noteq> 0, pos + int n))"

text \<open>
  \<^verbatim>\<open>Reader::readNum\<close>. The source computes in \<^verbatim>\<open>double\<close>; the model computes
  the same expression in exact rational arithmetic, which is what the program computes
  whenever the values are exactly representable (every integer below \<open>2^53\<close> is).
  The result is \<open>(res * sign, ok, pos)\<close>.
\<close>

definition readNum :: "string \<Rightarrow> int \<Rightarrow> rat \<times> bool \<times> int" where
  "readNum d pos =
     (let neg = (byte_at d pos = CHR ''-'');
          str = (if neg then pos + 1 else pos);
          sign = (if neg then - 1 else 1);
          (ip, n) = strtoll (suffix_at d str);
          end = str + int n;
          (res, end') =
            (if byte_at d end = CHR ''.''
             then (if isdigit (byte_at d (end + 1))
                   then (let (fract, m) = strtoll (suffix_at d (end + 1))
                         in (if 0 < m then of_int ip + of_int fract / 10 ^ m else of_int ip,
                             end + 1 + int m))
                   else (of_int ip, end + 1))
             else (of_int ip, end))
      in (res * sign, end' \<noteq> pos, end'))"

section \<open>Values and errors\<close>

text \<open>
  The exceptions of the reader, each with the position it reports (the message texts are
  left out).
\<close>

datatype error = HeaderError int | ParseError int | UnknownValueError int

text \<open>
  Modelled from the spec: the value classes of \<^verbatim>\<open>pdfvalue.h\<close>, which is not among
  the sources. A \<open>Link\<close> holds a 32-bit object number and a 16-bit generation number,
  a \<open>Dict\<close> has unique keys and keeps the last value written for a key, and a value
  that was never set (what \<^verbatim>\<open>Dict::value\<close> returns for a missing key) is
  \<open>Undefined\<close>. A \<open>String\<close> holds the decoded bytes (the source hands them to Qt's
  text codec, which is outside this repository) and the encoding it was read from.
\<close>

datatype EncodingType = HexEncoded | LiteralEncoded

datatype Value =
    Undefined
  | Null
  | Bool bool
  | Number rat
  | Name string
  | String string EncodingType
  | Array "Value list"
  | Dict "(string \<times> Value) list"
  | Link "32 word" "16 word"

text \<open>Modelled from the spec: \<^verbatim>\<open>Dict::insert\<close>, last write wins.\<close>

fun dict_insert :: "string \<Rightarrow> Value \<Rightarrow> (string \<times> Value) list \<Rightarrow> (string \<times> Value) list" where
  "dict_insert k v [] = [(k, v)]"
| "dict_insert k v (p # ps) = (if fst p = k then (k, v) # ps else p # dict_insert k v ps)"

text \<open>Modelled from the spec: \<^verbatim>\<open>Dict::value\<close>.\<close>

definition dict_value :: "(string \<times> Value) list \<Rightarrow> string \<Rightarrow> Value" where
  "dict_value dict k = (case map_of dict k of None \<Rightarrow> Undefined | Some v \<Rightarrow> v)"

text \<open>
  Modelled from the spec: \<^verbatim>\<open>asNumber().value()\<close>, the number of a \<open>Number\<close> and
  0 for every other value.
\<close>

fun asNumber_value :: "Value \<Rightarrow> rat" where
  "asNumber_value (Number x) = x"
| "asNumber_value _ = 0"

section \<open>Names and strings\<close>

function readNameLoop :: "string \<Rightarrow> int \<Rightarrow> int \<Rightarrow> error + (string \<times> int)" where
  "readNameLoop d start pos =
     (if pos < mSize d
      then (if isDelim d pos
            then Inr (take (nat (pos - start - 1)) (suffix_at d (start + 1)), pos)
            else readNameLoop d start (pos + 1))
      else Inl (ParseError start))"
  by pat_completeness auto
termination
  by (relation "measure (\<lambda>(d, start, pos). nat (mSize d - pos))") auto

declare readNameLoop.simps [simp del]

definition readNameString :: "string \<Rightarrow> int \<Rightarrow> error + (string \<times> int)" where
  "readNameString d pos =
     (if byte_at d pos \<noteq> CHR ''/'' then Inl (ParseError pos)
      else readNameLoop d pos (pos + 1))"

text \<open>
  \<^verbatim>\<open>Reader::readHexString\<close>: the loop over \<open>pos\<close> with its variables \<open>first\<close>,
  \<open>r\<close> and \<open>data\<close>. An appended value is cut to a byte by \<^const>\<open>char_of\<close>.
\<close>

function readHexLoop ::
  "string \<Rightarrow> int \<Rightarrow> int \<Rightarrow> bool \<Rightarrow> nat \<Rightarrow> string \<Rightarrow> error + (Value \<times> int)" where
  "readHexLoop d start pos first r data =
     (if pos < mSize d
      then (let c = byte_at d pos in
            if 48 \<le> ord c \<and> ord c \<le> 57
            then (if first then readHexLoop d start (pos + 1) (\<not> first) (ord c - 48) data
                  else readHexLoop d start (pos + 1) (\<not> first) r
                         (data @ [char_of (r * 16 + ord c - 48)]))
            else if 65 \<le> ord c \<and> ord c \<le> 70
            then (if first then readHexLoop d start (pos + 1) (\<not> first) (ord c - 65 + 10) data
                  else readHexLoop d start (pos + 1) (\<not> first) r
                         (data @ [char_of (r * 16 + ord c - 65 + 10)]))
            else if 97 \<le> ord c \<and> ord c \<le> 102
            then (if first then readHexLoop d start (pos + 1) (\<not> first) (ord c - 97 + 10) data
                  else readHexLoop d start (pos + 1) (\<not> first) r
                         (data @ [char_of (r * 16 + ord c - 97 + 10)]))
            else if isspace c
            then readHexLoop d start (pos + 1) first r data
            else if c = CHR ''>''
            then Inr (String (if \<not> first then data @ [char_of (r * 16)] else data) HexEncoded,
                      pos + 1)
            else Inl (ParseError pos))
      else Inl (ParseError start))"
  by pat_completeness auto
termination
  by (relation "measure (\<lambda>(d, start, pos, first, r, data). nat (mSize d - pos))") auto

declare readHexLoop.simps [simp del]

definition readHexString :: "string \<Rightarrow> int \<Rightarrow> error + (Value \<times> int)" where
  "readHexString d start = readHexLoop d start (start + 1) True 0 []"

text \<open>
  The inner loop of the octal escape, \<^verbatim>\<open>for(++i; i<l; ++i)\<close>: \<open>n\<close> is a
  \<^verbatim>\<open>char\<close>, so every assignment keeps its low 8 bits. The result is \<open>(n, i)\<close>
  when the loop is left.
\<close>

function octalLoop :: "string \<Rightarrow> int \<Rightarrow> int \<Rightarrow> nat \<Rightarrow> nat \<times> int" where
  "octalLoop d l i n =
     (if i < l
      then (let c = byte_at d i in
            if ord c < 48 \<or> ord c > 55 then (n, i)
            else octalLoop d l (i + 1) ((n * 8 + ord c - 48) mod 256))
      else (n, i))"
  by pat_completeness auto
termination
  by (relation "measure (\<lambda>(d, l, i, n). nat (l - i))") auto

declare octalLoop.simps [simp del]

lemma octalLoop_advances: "i \<le> snd (octalLoop d l i n)"
proof (induction d l i n rule: octalLoop.induct)
  case (1 d l i n)
  show ?case
  proof (cases "i < l \<and> \<not> (ord (byte_at d i) < 48 \<or> ord (byte_at d i) > 55)")
    case True
    then have "octalLoop d l i n
        = octalLoop d l (i + 1) ((n * 8 + ord (byte_at d i) - 48) mod 256)"
      by (subst octalLoop.simps) (simp add: Let_def)
    moreover have "i + 1 \<le> snd (octalLoop d l (i + 1) ((n * 8 + ord (byte_at d i) - 48) mod 256))"
      using True "1.IH" [OF _ refl] by simp
    ultimately show ?thesis by simp
  next
    case False
    then have "octalLoop d l i n = (n, i)"
      by (subst octalLoop.simps) (auto simp: Let_def)
    then show ?thesis by simp
  qed
qed

lemma octalLoop_advances_next: "i < snd (octalLoop d l (i + 1) n)"
  using octalLoop_advances [of "i + 1" d l n] by linarith

text \<open>
  The conversion of a \<^verbatim>\<open>qint64\<close> to \<^verbatim>\<open>int\<close> keeps the low 32 bits, read as a
  signed number.
\<close>

definition to_int32 :: "int \<Rightarrow> int" where
  "to_int32 x = (x + 2147483648) mod 4294967296 - 2147483648"

text \<open>
  \<^verbatim>\<open>Reader::readLiteralString\<close>. The body of its loop is the \<^verbatim>\<open>switch\<close> on the
  byte at \<open>i\<close>, one branch for each \<^verbatim>\<open>case\<close>: it either returns from the function
  (\<open>Finished\<close>, at the closing parenthesis of level 0) or leaves new values of the loop's
  variables \<open>i\<close>, \<open>level\<close>, \<open>esc\<close> and \<open>data\<close> (\<open>Next\<close>), after which the loop
  does its \<^verbatim>\<open>++i\<close>. The bound of the octal escape's inner loop is declared
  \<^verbatim>\<open>int l = qMin(i+3, mSize)\<close>: the minimum of the two 64-bit numbers cut to 32 bits.
\<close>

datatype literal_step = Next int int bool string | Finished "Value \<times> int"

definition readLiteralStep :: "string \<Rightarrow> int \<Rightarrow> int \<Rightarrow> bool \<Rightarrow> string \<Rightarrow> literal_step" where
  "readLiteralStep d i level esc data =
     (let c = byte_at d i in
      if c = CHR 0x5C
      then Next i level (\<not> esc) (if esc then data @ [c] else data)
      else if c = CHR ''n''
      then Next i level False (data @ [if esc then CHR 0x0A else CHR ''n''])
      else if c = CHR ''r''
      then Next i level False (data @ [if esc then CHR 0x0D else CHR ''r''])
      else if c = CHR ''t''
      then Next i level False (data @ [if esc then CHR 0x09 else CHR ''t''])
      else if c = CHR ''b''
      then Next i level False (data @ [if esc then CHR 0x08 else CHR ''b''])
      else if c = CHR ''f''
      then Next i level False (data @ [if esc then CHR 0x0C else CHR ''f''])
      else if 48 \<le> ord c \<and> ord c \<le> 55
      then (if esc
            then (let l = to_int32 (min (i + 3) (mSize d));
                      nj = octalLoop d l (i + 1) (ord c - 48)
                  in Next (snd nj - 1) level False (data @ [char_of (fst nj)]))
            else Next i level esc (data @ [c]))
      else if c = CHR 0x0A
      then (if esc
            then (if i + 1 < mSize d \<and> byte_at d (i + 1) = CHR 0x0D
                  then Next (i + 1) level False data
                  else Next i level False data)
            else Next i level False (data @ [CHR 0x0A]))
      else if c = CHR 0x0D
      then (if esc
            then (if i + 1 < mSize d \<and> byte_at d (i + 1) = CHR 0x0A
                  then Next (i + 1) level False data
                  else Next i level False data)
            else Next i level False (data @ [CHR 0x0D]))
      else if c = CHR ''(''
      then Next i (if \<not> esc then level + 1 else level) False (data @ [c])
      else if c = CHR '')''
      then (if \<not> esc
            then (if level - 1 = 0
                  then Finished (String data LiteralEncoded, i + 1)
                  else Next i (level - 1) False (data @ [c]))
            else Next i level False (data @ [c]))
      else Next i level False (data @ [c]))"

text \<open>A step never moves the position backwards.\<close>

fun step_from :: "int \<Rightarrow> literal_step \<Rightarrow> bool" where
  "step_from i (Next i' level esc data) = (i \<le> i')"
| "step_from i (Finished r) = (i < snd r)"

lemma readLiteralStep_from: "step_from i (readLiteralStep d i level esc data)"
  unfolding readLiteralStep_def Let_def
  by (simp add: if_distrib [of "step_from i"] octalLoop_advances_next
        cong: if_cong split del: if_split)

function readLiteralLoop ::
  "string \<Rightarrow> int \<Rightarrow> int \<Rightarrow> int \<Rightarrow> bool \<Rightarrow> string \<Rightarrow> error + (Value \<times> int)" where
  "readLiteralLoop d start i level esc data =
     (if i < mSize d
      then (case readLiteralStep d i level esc data of
              Finished r \<Rightarrow> Inr r
            | Next i' level' esc' data' \<Rightarrow> readLiteralLoop d start (i' + 1) level' esc' data')
      else Inl (ParseError start))"
  by pat_completeness auto
termination
proof (relation "measure (\<lambda>(d, start, i, level, esc, data). nat (mSize d - i))", goal_cases)
  case 1
  show ?case by simp
next
  case (2 d start i level esc data i' level' esc' data')
  have "step_from i (readLiteralStep d i level esc data)"
    by (rule readLiteralStep_from)
  with 2 show ?case by simp
qed

declare readLiteralLoop.simps [simp del]

definition readLiteralString :: "string \<Rightarrow> int \<Rightarrow> error + (Value \<times> int)" where
  "readLiteralString d start = readLiteralLoop d start (start + 1) 1 False []"

text \<open>
  The octal digits and the number that a run of them denotes, for stating what an octal
  escape contributes.
\<close>

definition isoctal :: "char \<Rightarrow> bool" where
  "isoctal c = (48 \<le> ord c \<and> ord c \<le> 55)"


section \<open>The value parser\<close>

text \<open>
  The loop of the comment branch of \<^verbatim>\<open>Reader::readValue\<close>:
  \<^verbatim>\<open>while (*pos < mSize && mData[*pos] != '\n' && mData[*pos] != '\r') ++(*pos)\<close>.
\<close>

function skipComment :: "string \<Rightarrow> int \<Rightarrow> int" where
  "skipComment d pos =
     (if pos < mSize d \<and> byte_at d pos \<noteq> CHR 0x0A \<and> byte_at d pos \<noteq> CHR 0x0D
      then skipComment d (pos + 1) else pos)"
  by pat_completeness auto
termination
  by (relation "measure (\<lambda>(d, pos). nat (mSize d - pos))") auto

declare skipComment.simps [simp del]

text \<open>
  The branch of \<^verbatim>\<open>Reader::readValue\<close> for a digit: a number, or a link when the
  number is a whole one and an unsigned integer and the letter \<open>R\<close> follow. The look-ahead
  works on the copy \<open>p\<close> of the position. \<^verbatim>\<open>quint64(n1)\<close> cuts the fraction off;
  \<^verbatim>\<open>Link(n1, n2)\<close> converts \<open>n1\<close> to 32 bits and \<open>n2\<close> to 16 bits.
\<close>

definition readValue_digit :: "string \<Rightarrow> int \<Rightarrow> error + (Value \<times> int)" where
  "readValue_digit d pos =
     (case readNum d pos of (n1, ok, pos1) \<Rightarrow>
        if \<not> ok then Inl (ParseError pos1)
        else if n1 \<noteq> of_int \<lfloor>n1\<rfloor> then Inr (Number n1, pos1)
        else (let p = skipSpace d pos1 in
              case readUInt d p of (n2, ok2, p2) \<Rightarrow>
                if \<not> ok2 then Inr (Number n1, pos1)
                else (let p3 = skipSpace d p2 in
                      if byte_at d p3 \<noteq> CHR ''R'' then Inr (Number n1, pos1)
                      else Inr (Link (word_of_int \<lfloor>n1\<rfloor>) (ucast n2), p3 + 1))))"

text \<open>The branch for \<^verbatim>\<open>'-'\<close>, \<^verbatim>\<open>'+'\<close> and \<^verbatim>\<open>'.'\<close>.\<close>

definition readValue_float :: "string \<Rightarrow> int \<Rightarrow> error + (Value \<times> int)" where
  "readValue_float d pos =
     (case readNum d pos of (n, ok, pos1) \<Rightarrow>
        if \<not> ok then Inl (ParseError pos1) else Inr (Number n, pos1))"

text \<open>The branch for \<^verbatim>\<open>'t'\<close> and \<^verbatim>\<open>'f'\<close>; both words return \<^verbatim>\<open>Bool(true)\<close>.\<close>

definition readValue_bool :: "string \<Rightarrow> int \<Rightarrow> error + (Value \<times> int)" where
  "readValue_bool d pos =
     (if compareWord d pos ''true'' then Inr (Bool True, pos + 4)
      else if compareWord d pos ''false'' then Inr (Bool True, pos + 5)
      else Inl (ParseError pos))"

definition readValue_null :: "string \<Rightarrow> int \<Rightarrow> error + (Value \<times> int)" where
  "readValue_null d pos =
     (if \<not> compareWord d pos ''null'' then Inl (ParseError pos) else Inr (Null, pos + 4))"

definition readValue_name :: "string \<Rightarrow> int \<Rightarrow> error + (Value \<times> int)" where
  "readValue_name d pos =
     (case readNameString d pos of Inl e \<Rightarrow> Inl e | Inr (s, p) \<Rightarrow> Inr (Name s, p))"

text \<open>A successful read returns a position behind the one it started at.\<close>

definition advances :: "int \<Rightarrow> error + ('a \<times> int) \<Rightarrow> bool" where
  "advances i r = (case r of Inl e \<Rightarrow> True | Inr (v, p) \<Rightarrow> i < p)"

lemma skipSpace_ge: "pos \<le> skipSpace d pos"
proof (induction d pos rule: skipSpace.induct)
  case (1 d pos)
  then show ?case by (subst skipSpace.simps) (auto split: if_splits)
qed

lemma skipComment_ge: "pos \<le> skipComment d pos"
proof (induction d pos rule: skipComment.induct)
  case (1 d pos)
  then show ?case by (subst skipComment.simps) (auto split: if_splits)
qed

lemma skipComment_gt:
  assumes "byte_at d pos = CHR ''%''"
  shows "pos < skipComment d pos"
proof -
  from assms have "byte_at d pos \<noteq> CHR 0x00" by simp
  then have "pos < mSize d" using byte_at_in_buffer by blast
  then have "skipComment d pos = skipComment d (pos + 1)"
    using assms by (subst skipComment.simps) simp
  then show ?thesis using skipComment_ge [of "pos + 1" d] by simp
qed

lemma readNameLoop_ge: "readNameLoop d start pos = Inr (s, p) \<Longrightarrow> pos \<le> p"
proof (induction d start pos rule: readNameLoop.induct)
  case (1 d start pos)
  from "1.prems" show ?case
    by (subst (asm) readNameLoop.simps) (use "1.IH" in \<open>auto split: if_splits\<close>)
qed

lemma readNameString_gt: "readNameString d pos = Inr (s, p) \<Longrightarrow> pos < p"
  using readNameLoop_ge [of d pos "pos + 1" s p]
  by (auto simp: readNameString_def split: if_splits)

lemma readUInt_ge: "readUInt d pos = (n, ok, p) \<Longrightarrow> pos \<le> p"
  by (auto simp: readUInt_def split: prod.splits)

lemma readNum_ge: "readNum d pos = (n, ok, p) \<Longrightarrow> pos \<le> p"
  by (auto simp: readNum_def Let_def split: prod.splits if_splits)

lemma readNum_ok_gt: "readNum d pos = (n, True, p) \<Longrightarrow> pos < p"
proof -
  assume a: "readNum d pos = (n, True, p)"
  then have "p \<noteq> pos"
    by (auto simp: readNum_def Let_def split: prod.splits if_splits)
  with readNum_ge [OF a] show ?thesis by simp
qed

lemma readHexLoop_gt: "readHexLoop d start pos first r data = Inr (v, p) \<Longrightarrow> pos < p"
proof (induction d start pos first r data rule: readHexLoop.induct)
  case (1 d start pos first r data)
  from "1.prems" show ?case
    by (subst (asm) readHexLoop.simps)
       (use "1.IH" in \<open>auto simp: Let_def split: if_splits dest!: meta_spec\<close>)
qed


lemma advances_Inl [simp]: "advances i (Inl e)"
  by (simp add: advances_def)

lemma advances_Inr [simp]: "advances i (Inr (v, p)) \<longleftrightarrow> i < p"
  by (simp add: advances_def)

lemma advances_mono: "advances j r \<Longrightarrow> i \<le> j \<Longrightarrow> advances i r"
  by (auto simp: advances_def split: sum.splits)

lemma advancesD: "advances i r \<Longrightarrow> r = Inr (v, p) \<Longrightarrow> i < p"
  by simp

lemma readLiteralLoop_advances: "advances i (readLiteralLoop d start i level esc data)"
proof (induction d start i level esc data rule: readLiteralLoop.induct)
  case (1 d start i level esc data)
  have st: "step_from i (readLiteralStep d i level esc data)"
    by (rule readLiteralStep_from)
  show ?case
  proof (cases "i < mSize d")
    case False
    then show ?thesis by (subst readLiteralLoop.simps) simp
  next
    case True
    show ?thesis
    proof (cases "readLiteralStep d i level esc data")
      case (Finished r)
      with st True show ?thesis
        by (subst readLiteralLoop.simps) (cases r, simp)
    next
      case (Next i' level' esc' data')
      with st have "i \<le> i'" by simp
      moreover have "advances (i' + 1) (readLiteralLoop d start (i' + 1) level' esc' data')"
        using "1.IH" [OF True Next] .
      ultimately have "advances i (readLiteralLoop d start (i' + 1) level' esc' data')"
        by (auto intro: advances_mono)
      with True Next show ?thesis
        by (subst readLiteralLoop.simps) simp
    qed
  qed
qed

lemma readLiteralLoop_gt:
  "readLiteralLoop d start i level esc data = Inr (v, p) \<Longrightarrow> i < p"
  using readLiteralLoop_advances [of i d start level esc data] by simp

lemma readHexString_gt: "readHexString d pos = Inr (v, p) \<Longrightarrow> pos < p"
  using readHexLoop_gt [of d pos "pos + 1" True 0 "[]" v p]
  by (simp add: readHexString_def)

lemma readLiteralString_gt: "readLiteralString d pos = Inr (v, p) \<Longrightarrow> pos < p"
  using readLiteralLoop_gt [of d pos "pos + 1" 1 False "[]" v p]
  by (simp add: readLiteralString_def)

lemma readValue_digit_gt: "readValue_digit d pos = Inr (v, p) \<Longrightarrow> pos < p"
proof -
  assume a: "readValue_digit d pos = Inr (v, p)"
  obtain n1 ok pos1 where n: "readNum d pos = (n1, ok, pos1)"
    by (cases "readNum d pos") auto
  obtain n2 ok2 p2 where u: "readUInt d (skipSpace d pos1) = (n2, ok2, p2)"
    by (cases "readUInt d (skipSpace d pos1)") auto
  from a n have ok: ok by (auto simp: readValue_digit_def split: if_splits)
  with n have "readNum d pos = (n1, True, pos1)" by simp
  then have g: "pos < pos1" by (rule readNum_ok_gt)
  have "pos1 \<le> skipSpace d pos1" by (rule skipSpace_ge)
  moreover have "skipSpace d pos1 \<le> p2" using u by (rule readUInt_ge)
  moreover have "p2 \<le> skipSpace d p2" by (rule skipSpace_ge)
  ultimately have "pos < skipSpace d p2 + 1" using g by linarith
  with a n u g show ?thesis
    by (auto simp: readValue_digit_def Let_def split: if_splits)
qed

lemma readValue_float_gt: "readValue_float d pos = Inr (v, p) \<Longrightarrow> pos < p"
  by (auto simp: readValue_float_def split: prod.splits if_splits dest: readNum_ok_gt)

lemma readValue_bool_gt: "readValue_bool d pos = Inr (v, p) \<Longrightarrow> pos < p"
  by (auto simp: readValue_bool_def split: if_splits)

lemma readValue_null_gt: "readValue_null d pos = Inr (v, p) \<Longrightarrow> pos < p"
  by (auto simp: readValue_null_def split: if_splits)

lemma readValue_name_gt: "readValue_name d pos = Inr (v, p) \<Longrightarrow> pos < p"
  by (auto simp: readValue_name_def split: sum.splits dest: readNameString_gt)

text \<open>
  \<^verbatim>\<open>Reader::readValue\<close>, \<^verbatim>\<open>Reader::readArray\<close> and \<^verbatim>\<open>Reader::readDict\<close> call
  each other. The two loops carry the position where the array or dictionary started
  (for the error) and the elements read so far.
\<close>

function readValue :: "string \<Rightarrow> int \<Rightarrow> error + (Value \<times> int)"
  and readArrayLoop :: "string \<Rightarrow> int \<Rightarrow> int \<Rightarrow> Value list \<Rightarrow> error + (Value \<times> int)"
  and readDictLoop ::
    "string \<Rightarrow> int \<Rightarrow> int \<Rightarrow> (string \<times> Value) list \<Rightarrow> error + (Value \<times> int)"
where
  "readValue d pos =
     (let c = byte_at d pos in
      if isdigit c then readValue_digit d pos
      else if c = CHR ''-'' \<or> c = CHR ''+'' \<or> c = CHR ''.'' then readValue_float d pos
      else if c = CHR ''['' then readArrayLoop d pos (pos + 1) []
      else if c = CHR ''<''
      then (if byte_at d (pos + 1) = CHR ''<'' then readDictLoop d pos (pos + 2) []
            else readHexString d pos)
      else if c = CHR ''/'' then readValue_name d pos
      else if c = CHR ''('' then readLiteralString d pos
      else if c = CHR ''t'' \<or> c = CHR ''f'' then readValue_bool d pos
      else if c = CHR ''n'' then readValue_null d pos
      else if c = CHR ''%'' then readValue d (skipSpace d (skipComment d pos))
      else Inl (UnknownValueError pos))"
| "readArrayLoop d start pos res =
     (if pos < mSize d
      then (let pos1 = skipSpace d pos in
            if pos1 = mSize d then Inl (ParseError start)
            else if byte_at d pos1 = CHR '']'' then Inr (Array res, pos1 + 1)
            else (case readValue d pos1 of
                    Inl e \<Rightarrow> Inl e
                  | Inr (v, pos2) \<Rightarrow> readArrayLoop d start pos2 (res @ [v])))
      else Inl (ParseError start))"
| "readDictLoop d start pos res =
     (if pos < mSize d - 1
      then (let pos1 = skipSpace d pos in
            if byte_at d pos1 = CHR ''>'' \<and> byte_at d (pos1 + 1) = CHR ''>''
            then Inr (Dict res, pos1 + 2)
            else (case readNameString d pos1 of
                    Inl e \<Rightarrow> Inl e
                  | Inr (name, pos2) \<Rightarrow>
                      (case readValue d (skipSpace d pos2) of
                         Inl e \<Rightarrow> Inl e
                       | Inr (v, pos4) \<Rightarrow> readDictLoop d start pos4 (dict_insert name v res))))
      else Inl (ParseError start))"
  by pat_completeness auto


lemma advancesI: "(\<And>v p. r = Inr (v, p) \<Longrightarrow> i < p) \<Longrightarrow> advances i r"
  by (auto simp: advances_def split: sum.splits)

lemma readValue_branch_advances:
  "advances pos (readValue_digit d pos)"
  "advances pos (readValue_float d pos)"
  "advances pos (readValue_bool d pos)"
  "advances pos (readValue_null d pos)"
  "advances pos (readValue_name d pos)"
  "advances pos (readHexString d pos)"
  "advances pos (readLiteralString d pos)"
  by (auto intro!: advancesI
      dest: readValue_digit_gt readValue_float_gt readValue_bool_gt readValue_null_gt
        readValue_name_gt readHexString_gt readLiteralString_gt)

lemma skipSpace_skipComment_ge: "pos \<le> skipSpace d (skipComment d pos)"
  using skipComment_ge [of pos d] skipSpace_ge [of "skipComment d pos" d] by linarith

lemma readValue_advances_partial:
  "readValue_readArrayLoop_readDictLoop_dom (Inl (d, pos)) \<Longrightarrow> advances pos (readValue d pos)"
  "readValue_readArrayLoop_readDictLoop_dom (Inr (Inl (d, start, pos, res)))
     \<Longrightarrow> advances pos (readArrayLoop d start pos res)"
  "readValue_readArrayLoop_readDictLoop_dom (Inr (Inr (d, start, pos, dres)))
     \<Longrightarrow> advances pos (readDictLoop d start pos dres)"
proof (induction d pos and d start pos res and d start pos dres
       rule: readValue_readArrayLoop_readDictLoop.pinduct)
  case (1 d pos)
  let ?c = "byte_at d pos"
  note ps = readValue.psimps [OF "1.hyps"]
  consider (arr) "?c = CHR ''[''"
    | (dict) "?c = CHR ''<''" "byte_at d (pos + 1) = CHR ''<''"
    | (cmt) "?c = CHR ''%''"
    | (other) "?c \<noteq> CHR ''[''" "\<not> (?c = CHR ''<'' \<and> byte_at d (pos + 1) = CHR ''<'')"
        "?c \<noteq> CHR ''%''"
    by blast
  then show ?case
  proof cases
    case arr
    then have "readValue d pos = readArrayLoop d pos (pos + 1) []"
      unfolding ps by (simp add: isdigit_def ord_def)
    moreover have "advances (pos + 1) (readArrayLoop d pos (pos + 1) [])"
      using arr by (intro "1.IH"(1) [OF refl]) (simp_all add: isdigit_def ord_def)
    ultimately show ?thesis by (auto intro: advances_mono)
  next
    case dict
    then have "readValue d pos = readDictLoop d pos (pos + 2) []"
      unfolding ps by (simp add: isdigit_def ord_def)
    moreover have "advances (pos + 2) (readDictLoop d pos (pos + 2) [])"
      using dict by (intro "1.IH"(2) [OF refl]) (simp_all add: isdigit_def ord_def)
    ultimately show ?thesis by (auto intro: advances_mono)
  next
    case cmt
    then have "readValue d pos = readValue d (skipSpace d (skipComment d pos))"
      unfolding ps by (simp add: isdigit_def ord_def)
    moreover have "advances (skipSpace d (skipComment d pos))
        (readValue d (skipSpace d (skipComment d pos)))"
      using cmt by (intro "1.IH"(3) [OF refl]) (simp_all add: isdigit_def ord_def)
    ultimately show ?thesis
      using skipSpace_skipComment_ge [of pos d] by (auto intro: advances_mono)
  next
    case other
    then show ?thesis
      unfolding ps Let_def
      by (simp add: if_distrib [of "advances pos"] readValue_branch_advances
            cong: if_cong split del: if_split)
  qed
next
  case (2 d start pos res)
  let ?p1 = "skipSpace d pos"
  show ?case
  proof (cases "pos < mSize d \<and> ?p1 \<noteq> mSize d \<and> byte_at d ?p1 \<noteq> CHR '']''")
    case False
    then show ?thesis
      using skipSpace_ge [of pos d]
      by (subst readArrayLoop.psimps [OF "2.hyps"]) (auto simp: Let_def)
  next
    case True
    then have c: "pos < mSize d" "?p1 \<noteq> mSize d" "byte_at d ?p1 \<noteq> CHR '']''" by simp_all
    show ?thesis
    proof (cases "readValue d ?p1")
      case (Inl e)
      with c show ?thesis
        by (subst readArrayLoop.psimps [OF "2.hyps"]) (simp add: Let_def)
    next
      case (Inr vp)
      obtain v pos2 where vp: "vp = (v, pos2)" by (cases vp)
      have "advances ?p1 (readValue d ?p1)"
        by (rule "2.IH"(1) [OF c(1) refl c(2) c(3)])
      with Inr vp have "?p1 < pos2" by simp
      then have le: "pos \<le> pos2" using skipSpace_ge [of pos d] by linarith
      have "advances pos2 (readArrayLoop d start pos2 (res @ [v]))"
        using Inr vp by (intro "2.IH"(2) [OF c(1) refl c(2) c(3)]) simp_all
      then have "advances pos (readArrayLoop d start pos2 (res @ [v]))"
        using le by (rule advances_mono)
      with c Inr vp show ?thesis
        by (subst readArrayLoop.psimps [OF "2.hyps"]) (simp add: Let_def)
    qed
  qed
next
  case (3 d start pos res)
  let ?p1 = "skipSpace d pos"
  let ?close = "byte_at d ?p1 = CHR ''>'' \<and> byte_at d (?p1 + 1) = CHR ''>''"
  show ?case
  proof (cases "pos < mSize d - 1 \<and> \<not> ?close")
    case False
    then show ?thesis
      using skipSpace_ge [of pos d]
      by (subst readDictLoop.psimps [OF "3.hyps"]) (auto simp: Let_def)
  next
    case True
    then have c: "pos < mSize d - 1" "\<not> ?close" by simp_all
    show ?thesis
    proof (cases "readNameString d ?p1")
      case (Inl e)
      with c show ?thesis
        by (subst readDictLoop.psimps [OF "3.hyps"]) (auto simp: Let_def)
    next
      case (Inr np)
      obtain name pos2 where np: "np = (name, pos2)" by (cases np)
      let ?p3 = "skipSpace d pos2"
      have "?p1 < pos2" using Inr np readNameString_gt by blast
      then have le3: "pos \<le> ?p3"
        using skipSpace_ge [of pos d] skipSpace_ge [of pos2 d] by linarith
      show ?thesis
      proof (cases "readValue d ?p3")
        case (Inl e)
        with c Inr np show ?thesis
          by (subst readDictLoop.psimps [OF "3.hyps"]) (auto simp: Let_def)
      next
        case r: (Inr vp)
        obtain v pos4 where vp: "vp = (v, pos4)" by (cases vp)
        have "advances ?p3 (readValue d ?p3)"
          using Inr np by (intro "3.IH"(1) [OF c(1) refl c(2)]) simp_all
        with r vp have "?p3 < pos4" by simp
        with le3 have le: "pos \<le> pos4" by linarith
        have "advances pos4 (readDictLoop d start pos4 (dict_insert name v res))"
          using Inr np r vp by (intro "3.IH"(2) [OF c(1) refl c(2)]) simp_all
        then have "advances pos (readDictLoop d start pos4 (dict_insert name v res))"
          using le by (rule advances_mono)
        with c Inr np r vp show ?thesis
          by (subst readDictLoop.psimps [OF "3.hyps"]) (auto simp: Let_def)
      qed
    qed
  qed
qed

termination readValue
proof (relation "measure (\<lambda>x. case x of
             Inl (d, pos) \<Rightarrow> 2 * nat (mSize d - pos)
           | Inr (Inl (d, start, pos, res)) \<Rightarrow> 2 * nat (mSize d - pos) + 1
           | Inr (Inr (d, start, pos, res)) \<Rightarrow> 2 * nat (mSize d - pos) + 1)", goal_cases)
  case 1
  show ?case by simp
next
  case (2 d pos c)
  then have "byte_at d pos \<noteq> CHR 0x00" by auto
  then have "pos < mSize d" using byte_at_in_buffer by blast
  then show ?case by simp
next
  case (3 d pos c)
  then have "byte_at d pos \<noteq> CHR 0x00" by auto
  then have "pos < mSize d" using byte_at_in_buffer by blast
  then show ?case by simp
next
  case (4 d pos c)
  then have b: "byte_at d pos = CHR ''%''" by auto
  then have "byte_at d pos \<noteq> CHR 0x00" by auto
  then have "pos < mSize d" using byte_at_in_buffer by blast
  moreover have "pos < skipSpace d (skipComment d pos)"
    using skipComment_gt [OF b] skipSpace_ge [of "skipComment d pos" d] by linarith
  ultimately show ?case by simp
next
  case (5 d start pos res pos1)
  then show ?case using skipSpace_ge [of pos d] by simp
next
  case (6 d start pos res pos1 vp v pos2)
  then have "advances pos1 (readValue d pos1)"
    using readValue_advances_partial(1) by blast
  moreover from 6 have "readValue d pos1 = Inr (v, pos2)" by simp
  ultimately have "pos1 < pos2" by simp
  with 6 show ?case using skipSpace_ge [of pos d] by simp
next
  case (7 d start pos res pos1 np name pos2)
  then have "pos1 < pos2" using readNameString_gt [of d pos1 name pos2] by simp
  with 7 show ?case
    using skipSpace_ge [of pos d] skipSpace_ge [of pos2 d] by simp
next
  case (8 d start pos res pos1 np name pos2 vp v pos4)
  then have "pos1 < pos2" using readNameString_gt [of d pos1 name pos2] by simp
  from 8 have "advances (skipSpace d pos2) (readValue d (skipSpace d pos2))"
    using readValue_advances_partial(1) by blast
  moreover from 8 have "readValue d (skipSpace d pos2) = Inr (v, pos4)" by simp
  ultimately have "skipSpace d pos2 < pos4" by simp
  with \<open>pos1 < pos2\<close> show ?case
    using 8 skipSpace_ge [of pos d] skipSpace_ge [of pos2 d] by simp
qed

declare readValue.simps [simp del] readArrayLoop.simps [simp del] readDictLoop.simps [simp del]

text \<open>\<^verbatim>\<open>Reader::readArray\<close> and \<^verbatim>\<open>Reader::readDict\<close>, the latter into \<open>res\<close>.\<close>

definition readArray :: "string \<Rightarrow> int \<Rightarrow> error + (Value \<times> int)" where
  "readArray d start = readArrayLoop d start (start + 1) []"

definition readDict ::
  "string \<Rightarrow> int \<Rightarrow> (string \<times> Value) list \<Rightarrow> error + (Value \<times> int)" where
  "readDict d start res = readDictLoop d start (start + 2) res"

section \<open>Objects and the cross-reference table\<close>

text \<open>
  Modelled from the spec: an entry of the cross-reference table (\<^verbatim>\<open>pdfxref.h\<close> is not
  among the sources): the byte offset (0 for a free entry), the object and generation
  numbers and the status. The table maps object numbers to entries;
  \<^verbatim>\<open>XRefTable::value\<close> returns a default entry, with offset 0, for an object number
  that is not in the table.
\<close>

datatype XRefType = Free | Used

record XRefEntry =
  entry_pos :: int
  entry_objNum :: "32 word"
  entry_genNum :: "16 word"
  entry_type :: XRefType

type_synonym XRefTable = "32 word \<rightharpoonup> XRefEntry"

definition default_entry :: XRefEntry where
  "default_entry = \<lparr>entry_pos = 0, entry_objNum = 0, entry_genNum = 0, entry_type = Free\<rparr>"

definition xref_value :: "XRefTable \<Rightarrow> 32 word \<Rightarrow> XRefEntry" where
  "xref_value t n = (case t n of None \<Rightarrow> default_entry | Some e \<Rightarrow> e)"

text \<open>
  Modelled from the spec: an indirect object (\<^verbatim>\<open>pdfobject.h\<close> is not among the
  sources), with its numbers, its value and, when it has one, the view of its stream: the
  offset in the buffer and the number of bytes. A default-constructed object has no value
  and no stream. \<^verbatim>\<open>Object::dict\<close> is the dictionary of a value that is one, and an
  empty dictionary otherwise.
\<close>

record Object =
  obj_objNum :: "32 word"
  obj_genNum :: "16 word"
  obj_value :: Value
  obj_stream :: "(int \<times> int) option"

definition null_object :: Object where
  "null_object = \<lparr>obj_objNum = 0, obj_genNum = 0, obj_value = Undefined, obj_stream = None\<rparr>"

fun value_dict :: "Value \<Rightarrow> (string \<times> Value) list" where
  "value_dict (Dict kvs) = kvs"
| "value_dict _ = []"

text \<open>The conversion of a \<^verbatim>\<open>double\<close> to \<^verbatim>\<open>qint64\<close> cuts the fraction off.\<close>

definition to_qint64 :: "rat \<Rightarrow> int" where
  "to_qint64 x = (if 0 \<le> x then \<lfloor>x\<rfloor> else \<lceil>x\<rceil>)"

text \<open>The state of the reader after \<^verbatim>\<open>load\<close>.\<close>

record Reader =
  mData :: string
  mXRefTable :: XRefTable
  mTrailerDict :: "(string \<times> Value) list"

text \<open>
  \<^verbatim>\<open>Reader::readObject\<close> up to the keyword \<^verbatim>\<open>stream\<close>: the two numbers, the
  keyword \<^verbatim>\<open>obj\<close> and the value. The result is the object and generation number, the
  value and the position after the white space behind the value.
\<close>

definition readObjectHead :: "string \<Rightarrow> int \<Rightarrow> error + (32 word \<times> 16 word \<times> Value \<times> int)" where
  "readObjectHead d start =
     (case readUInt d start of (on, ok, pos1) \<Rightarrow>
        if \<not> ok then Inl (ParseError pos1)
        else (case readUInt d (skipSpace d pos1) of (gn, ok2, pos3) \<Rightarrow>
                if \<not> ok2 then Inl (ParseError pos3)
                else (case readValue d (skipSpace d (indexOf d ''obj'' pos3 + 3)) of
                        Inl e \<Rightarrow> Inl e
                      | Inr (v, pos5) \<Rightarrow> Inr (on, ucast gn, v, skipSpace d pos5))))"

text \<open>
  The end of the stream branch of \<^verbatim>\<open>Reader::readObject\<close>, once the length is known:
  the stream is the view of \<open>len\<close> bytes at \<open>pos\<close>, and the keyword
  \<^verbatim>\<open>endstream\<close> is skipped when it is there.
\<close>

definition readObjectStream ::
  "string \<Rightarrow> 32 word \<Rightarrow> 16 word \<Rightarrow> Value \<Rightarrow> int \<Rightarrow> int \<Rightarrow> Object \<times> int" where
  "readObjectStream d on gn v pos len =
     (let p = skipSpace d (pos + len)
      in (\<lparr>obj_objNum = on, obj_genNum = gn, obj_value = v, obj_stream = Some (pos, len)\<rparr>,
          if compareWord d p ''endstream'' then p + 9 else p))"

text \<open>
  \<^verbatim>\<open>Reader::readObject\<close>. For a length that is a link it calls
  \<^verbatim>\<open>Reader::getObject\<close>, which calls \<^verbatim>\<open>readObject\<close> again; an object whose
  length links to itself makes the two call each other for ever, so the result is an
  option and \<open>None\<close> stands for no return. The body of \<^verbatim>\<open>getObject\<close> stands in the
  branch of the link (\<open>readObject_Link\<close> below states the branch with \<open>getObject\<close>).
\<close>

partial_function (option) readObject :: "Reader \<Rightarrow> int \<Rightarrow> (error + (Object \<times> int)) option" where
  "readObject rd start =
     (case readObjectHead (mData rd) start of
        Inl e \<Rightarrow> Some (Inl e)
      | Inr (on, gn, v, pos) \<Rightarrow>
          if compareWord (mData rd) pos ''stream''
          then (let pos1 = skipCRLF (mData rd) (pos + 6) in
                case dict_value (value_dict v) ''Length'' of
                  Number n \<Rightarrow> Some (Inr (readObjectStream (mData rd) on gn v pos1 (to_qint64 n)))
                | Link lo lg \<Rightarrow>
                    (if entry_pos (xref_value (mXRefTable rd) lo) \<noteq> 0
                     then Option.bind (readObject rd (entry_pos (xref_value (mXRefTable rd) lo)))
                            (\<lambda>r. case r of
                                   Inl e \<Rightarrow> Some (Inl e)
                                 | Inr (obj, p) \<Rightarrow>
                                     Some (Inr (readObjectStream (mData rd) on gn v pos1
                                       (to_qint64 (asNumber_value (obj_value obj))))))
                     else Some (Inr (readObjectStream (mData rd) on gn v pos1
                            (to_qint64 (asNumber_value (obj_value null_object))))))
                | _ \<Rightarrow> Some (Inl (ParseError pos1)))
          else Some (Inr (\<lparr>obj_objNum = on, obj_genNum = gn, obj_value = v, obj_stream = None\<rparr>,
                          pos)))"

text \<open>
  \<^verbatim>\<open>Reader::getObject\<close>: the generation number is not used
  (\<^verbatim>\<open>Q_UNUSED(genNum)\<close>).
\<close>

definition getObject :: "Reader \<Rightarrow> 32 word \<Rightarrow> 16 word \<Rightarrow> (error + Object) option" where
  "getObject rd objNum genNum =
     (if entry_pos (xref_value (mXRefTable rd) objNum) \<noteq> 0
      then Option.bind (readObject rd (entry_pos (xref_value (mXRefTable rd) objNum)))
             (\<lambda>r. case r of Inl e \<Rightarrow> Some (Inl e) | Inr (obj, p) \<Rightarrow> Some (Inr obj))
      else Some (Inr null_object))"

section \<open>The cross-reference table and the trailer\<close>

text \<open>
  One 20-byte entry of a cross-reference section at \<open>pos\<close>, as the body of the
  \<^verbatim>\<open>for\<close> loop of \<^verbatim>\<open>Reader::readXRefTable\<close> builds it: the status byte is at
  \<open>pos + 17\<close>, the offset is read at \<open>pos\<close> and the generation number, cut to 16
  bits, at \<open>pos + 11\<close>.
\<close>

definition readXRefEntry :: "string \<Rightarrow> int \<Rightarrow> 32 word \<Rightarrow> XRefEntry" where
  "readXRefEntry d pos objNum =
     (if byte_at d (pos + 17) = CHR ''n''
      then \<lparr>entry_pos = fst (strtoul (suffix_at d pos)), entry_objNum = objNum,
            entry_genNum = word_of_int (fst (strtoul (suffix_at d (pos + 11)))),
            entry_type = Used\<rparr>
      else \<lparr>entry_pos = 0, entry_objNum = objNum,
            entry_genNum = word_of_int (fst (strtoul (suffix_at d (pos + 11)))),
            entry_type = Free\<rparr>)"

text \<open>
  The \<^verbatim>\<open>for\<close> loop over the \<open>cnt\<close> entries of a section: an entry is inserted
  only when the table does not contain its object number yet, and the position moves on
  by 20 bytes either way. \<open>objNum\<close> is \<^verbatim>\<open>startObjNum + i\<close>, in 32 bits.
\<close>

fun readXRefEntries ::
  "string \<Rightarrow> int \<Rightarrow> 32 word \<Rightarrow> nat \<Rightarrow> XRefTable \<Rightarrow> int \<times> XRefTable" where
  "readXRefEntries d pos objNum 0 res = (pos, res)"
| "readXRefEntries d pos objNum (Suc k) res =
     readXRefEntries d (pos + 20) (objNum + 1) k
       (if res objNum = None then res(objNum \<mapsto> readXRefEntry d pos objNum) else res)"

lemma readXRefEntries_pos: "fst (readXRefEntries d pos objNum k res) = pos + 20 * int k"
  by (induction k arbitrary: pos objNum res) simp_all

lemma readUInt_ok_in_buffer:
  assumes "readUInt d pos = (v, True, p)"
  shows "pos < p" and "pos < mSize d"
proof -
  obtain r n where st: "strtoul (suffix_at d pos) = (r, n)"
    by (cases "strtoul (suffix_at d pos)")
  with assms have n: "n \<noteq> 0" and p: "p = pos + int n"
    by (auto simp: readUInt_def)
  then show "pos < p" by simp
  have "suffix_at d pos \<noteq> []"
  proof
    assume "suffix_at d pos = []"
    then have "strtoul (suffix_at d pos) = (0, 0)"
      by (simp add: strtoul_def scan_sign_def)
    with st n show False by simp
  qed
  then have "0 \<le> pos" and "nat pos < length d"
    by (auto simp: suffix_at_def split: if_splits)
  then show "pos < mSize d" by (simp add: mSize_def)
qed

text \<open>
  The \<^verbatim>\<open>do ... while\<close> loop of \<^verbatim>\<open>Reader::readXRefTable\<close> over the sections,
  until the keyword \<^verbatim>\<open>trailer\<close> follows.
\<close>

function readXRefSections :: "string \<Rightarrow> int \<Rightarrow> XRefTable \<Rightarrow> error + (int \<times> XRefTable)" where
  "readXRefSections d pos res =
     (case readUInt d pos of (startObjNum, ok, pos1) \<Rightarrow>
        if \<not> ok then Inl (ParseError pos1)
        else (case readUInt d pos1 of (cnt, ok2, pos2) \<Rightarrow>
                if \<not> ok2 then Inl (ParseError pos2)
                else (case readXRefEntries d (skipSpace d pos2) startObjNum (unat cnt) res of
                        (pos4, res') \<Rightarrow>
                          if \<not> compareStr d (skipSpace d pos4) ''trailer''
                          then readXRefSections d (skipSpace d pos4) res'
                          else Inr (skipSpace d pos4, res'))))"
  by pat_completeness auto
termination
proof (relation "measure (\<lambda>(d, pos, res). nat (mSize d - pos))", goal_cases)
  case 1
  show ?case by simp
next
  case (2 d pos res startObjNum y ok pos1 cnt yb ok2 pos2 pos4 res')
  then have a: "readUInt d pos = (startObjNum, True, pos1)"
    and b: "readUInt d pos1 = (cnt, ok2, pos2)"
    and e: "readXRefEntries d (skipSpace d pos2) startObjNum (unat cnt) res = (pos4, res')"
    by (auto dest: sym)
  have "pos4 = skipSpace d pos2 + 20 * int (unat cnt)"
    using readXRefEntries_pos [of d "skipSpace d pos2" startObjNum "unat cnt" res] e by simp
  moreover have "0 \<le> 20 * int (unat cnt)" by simp
  ultimately have "pos2 \<le> pos4" using skipSpace_ge [of pos2 d] by linarith
  moreover have "pos1 \<le> pos2" using readUInt_ge [OF b] .
  moreover have "pos < pos1" "pos < mSize d" using readUInt_ok_in_buffer [OF a] .
  ultimately show ?case using skipSpace_ge [of pos4 d] by simp
qed

declare readXRefSections.simps [simp del]

definition readXRefTable :: "string \<Rightarrow> int \<Rightarrow> XRefTable \<Rightarrow> error + (int \<times> XRefTable)" where
  "readXRefTable d pos res =
     (if \<not> compareWord d (skipSpace d pos) ''xref'' then Inl (ParseError (skipSpace d pos))
      else readXRefSections d (skipSpace d (skipSpace d pos + 4)) res)"

text \<open>
  \<^verbatim>\<open>dict.value("Prev").asNumber().value()\<close>, converted to \<^verbatim>\<open>qint64\<close>: the offset of
  the previous cross-reference segment, 0 when the trailer has no number there.
\<close>

definition prev_of :: "(string \<times> Value) list \<Rightarrow> int" where
  "prev_of dict = to_qint64 (asNumber_value (dict_value dict ''Prev''))"

text \<open>
  \<^verbatim>\<open>Reader::load\<close> up to its \<^verbatim>\<open>while\<close> loop: the header, the last
  \<^verbatim>\<open>startxref\<close>, the cross-reference segment it points to, read into the empty table,
  and the trailer dictionary behind it, read into the empty \<^verbatim>\<open>mTrailerDict\<close>.
\<close>

definition loadNewest :: "string \<Rightarrow> error + (XRefTable \<times> (string \<times> Value) list)" where
  "loadNewest d =
     (if indexOf d ''%PDF-'' 0 \<noteq> 0 then Inl (HeaderError 0)
      else if indexOfBack d ''startxref'' (mSize d - 1) < 0 then Inl (ParseError 0)
      else (case readUInt d (indexOfBack d ''startxref'' (mSize d - 1) + 9) of
              (xrefPos, ok, pos) \<Rightarrow>
                if \<not> ok then Inl (ParseError pos)
                else (case readXRefTable d (uint xrefPos) Map.empty of
                        Inl e \<Rightarrow> Inl e
                      | Inr (pos1, tbl) \<Rightarrow>
                          (case readDict d (skipSpace d (pos1 + 7)) [] of
                             Inl e \<Rightarrow> Inl e
                           | Inr (trailer, pos2) \<Rightarrow> Inr (tbl, value_dict trailer)))))"

text \<open>
  The \<^verbatim>\<open>while (parentXrefPos)\<close> loop of \<^verbatim>\<open>Reader::load\<close>: the previous segment is
  read into the same table, its trailer into a local dictionary of which only
  \<open>Prev\<close> is used. A chain of \<open>Prev\<close> offsets that comes back to a segment makes the
  loop run for ever, so the result is an option.
\<close>

partial_function (option) loadPrev :: "string \<Rightarrow> int \<Rightarrow> XRefTable \<Rightarrow> (error + XRefTable) option" where
  "loadPrev d parentXrefPos tbl =
     (if parentXrefPos \<noteq> 0
      then (case readXRefTable d parentXrefPos tbl of
              Inl e \<Rightarrow> Some (Inl e)
            | Inr (pos, tbl') \<Rightarrow>
                (case readDict d (skipSpace d (pos + 7)) [] of
                   Inl e \<Rightarrow> Some (Inl e)
                 | Inr (dict, pos2) \<Rightarrow> loadPrev d (prev_of (value_dict dict)) tbl'))
      else Some (Inr tbl))"

definition load :: "string \<Rightarrow> (error + Reader) option" where
  "load d =
     (case loadNewest d of
        Inl e \<Rightarrow> Some (Inl e)
      | Inr (tbl, trailer) \<Rightarrow>
          Option.bind (loadPrev d (prev_of trailer) tbl)
            (\<lambda>r. case r of
                   Inl e \<Rightarrow> Some (Inl e)
                 | Inr tbl' \<Rightarrow>
                     Some (Inr \<lparr>mData = d, mXRefTable = tbl', mTrailerDict = trailer\<rparr>)))"

text \<open>
  The cross-reference tables of the revisions on their own, each segment read into the
  empty table, in the order of the walk: newest first. This is what each revision
  defines, for stating which revision's entry the merged table holds.
\<close>

partial_function (option) revisionTables :: "string \<Rightarrow> int \<Rightarrow> (error + XRefTable list) option" where
  "revisionTables d parentXrefPos =
     (if parentXrefPos \<noteq> 0
      then (case readXRefTable d parentXrefPos Map.empty of
              Inl e \<Rightarrow> Some (Inl e)
            | Inr (pos, s) \<Rightarrow>
                (case readDict d (skipSpace d (pos + 7)) [] of
                   Inl e \<Rightarrow> Some (Inl e)
                 | Inr (dict, pos2) \<Rightarrow>
                     Option.bind (revisionTables d (prev_of (value_dict dict)))
                       (\<lambda>r. case r of
                              Inl e \<Rightarrow> Some (Inl e)
                            | Inr ss \<Rightarrow> Some (Inr (s # ss)))))
      else Some (Inr []))"

definition revisions :: "string \<Rightarrow> (error + XRefTable list) option" where
  "revisions d =
     (case loadNewest d of
        Inl e \<Rightarrow> Some (Inl e)
      | Inr (tbl, trailer) \<Rightarrow>
          Option.bind (revisionTables d (prev_of trailer))
            (\<lambda>r. case r of Inl e \<Rightarrow> Some (Inl e) | Inr ss \<Rightarrow> Some (Inr (tbl # ss))))"

text \<open>The entry of the first table of a list, newest first, that has the object number.\<close>

fun newest_entry :: "XRefTable list \<Rightarrow> 32 word \<Rightarrow> XRefEntry option" where
  "newest_entry [] n = None"
| "newest_entry (s # older) n = (case s n of None \<Rightarrow> newest_entry older n | Some e \<Rightarrow> Some e)"

text \<open>
  A file of two revisions: the older one, at 9, defines the objects 4 and 5 and has the
  trailer key \<open>Info\<close>; the newer one, at 82, defines the objects 5 and 6 and has the
  trailer keys \<open>Root\<close> and \<open>Prev\<close>.
\<close>

definition two_revisions :: string where
  "two_revisions =
     ''%PDF-1.4\<newline>'' @
     ''xref\<newline>'' @
     ''4 2\<newline>'' @
     ''0000000050 00000 n \<newline>'' @
     ''0000000100 00000 n \<newline>'' @
     ''trailer\<newline>'' @
     ''<</Info 9 0 R>>\<newline>'' @
     ''xref\<newline>'' @
     ''5 2\<newline>'' @
     ''0000000200 00000 n \<newline>'' @
     ''0000000300 00000 n \<newline>'' @
     ''trailer\<newline>'' @
     ''<</Root 1 0 R/Prev 9>>\<newline>'' @
     ''startxref\<newline>'' @
     ''82\<newline>'' @
     ''%%EOF\<newline>''"

text \<open>
  The key-wise union of trailer dictionaries, newest first: a key keeps the value of the
  newest dictionary that has it.
\<close>

fun trailer_union :: "(string \<times> Value) list list \<Rightarrow> (string \<times> Value) list" where
  "trailer_union [] = []"
| "trailer_union (t # older) = t @ filter (\<lambda>kv. map_of t (fst kv) = None) (trailer_union older)"

text \<open>What \<^verbatim>\<open>load\<close> makes of \<^const>\<open>two_revisions\<close>.\<close>

definition newest_table :: XRefTable where
  "newest_table =
     [5 \<mapsto> \<lparr>entry_pos = 200, entry_objNum = 5, entry_genNum = 0, entry_type = Used\<rparr>,
      6 \<mapsto> \<lparr>entry_pos = 300, entry_objNum = 6, entry_genNum = 0, entry_type = Used\<rparr>]"

definition merged_table :: XRefTable where
  "merged_table =
     [5 \<mapsto> \<lparr>entry_pos = 200, entry_objNum = 5, entry_genNum = 0, entry_type = Used\<rparr>,
      6 \<mapsto> \<lparr>entry_pos = 300, entry_objNum = 6, entry_genNum = 0, entry_type = Used\<rparr>,
      4 \<mapsto> \<lparr>entry_pos = 50, entry_objNum = 4, entry_genNum = 0, entry_type = Used\<rparr>]"

definition two_revisions_reader :: Reader where
  "two_revisions_reader =
     \<lparr>mData = two_revisions, mXRefTable = merged_table,
      mTrailerDict = [(''Root'', Link 1 0), (''Prev'', Number 9)]\<rparr>"

text \<open>A result whose table is the segment's own table laid under the given one.\<close>

definition under_table ::
  "XRefTable \<Rightarrow> error + (int \<times> XRefTable) \<Rightarrow> error + (int \<times> XRefTable)" where
  "under_table res r = (case r of Inl e \<Rightarrow> Inl e | Inr (p, s) \<Rightarrow> Inr (p, s ++ res))"

text \<open>
  The table after the walk from \<open>prev\<close>: what the table had before, and below it the
  entries of the revisions walked, newest first.
\<close>

definition walked :: "string \<Rightarrow> int \<Rightarrow> XRefTable \<Rightarrow> error + XRefTable \<Rightarrow> bool" where
  "walked d prev tbl r =
     (case r of
        Inl e \<Rightarrow> True
      | Inr tbl' \<Rightarrow>
          (\<exists>ss. revisionTables d prev = Some (Inr ss)
             \<and> (\<forall>n. tbl' n = (case tbl n of None \<Rightarrow> newest_entry ss n | Some e \<Rightarrow> Some e))))"

section \<open>What a hexadecimal string denotes\<close>

text \<open>
  The bytes that a run of hexadecimal digits denotes, following the comment above
  \<^verbatim>\<open>Reader::readHexString\<close>: each pair of digits is one byte, and a last digit
  without a partner is the high half of a byte whose low half is 0.
\<close>

definition ishex :: "char \<Rightarrow> bool" where
  "ishex c = ((48 \<le> ord c \<and> ord c \<le> 57) \<or> (65 \<le> ord c \<and> ord c \<le> 70)
              \<or> (97 \<le> ord c \<and> ord c \<le> 102))"

definition hex_val :: "char \<Rightarrow> nat" where
  "hex_val c = (if ord c \<le> 57 then ord c - 48
                else if ord c \<le> 70 then ord c - 65 + 10
                else ord c - 97 + 10)"

fun hex_bytes :: "string \<Rightarrow> string" where
  "hex_bytes (h # l # cs) = char_of (hex_val h * 16 + hex_val l) # hex_bytes cs"
| "hex_bytes [h] = [char_of (hex_val h * 16)]"
| "hex_bytes [] = []"

definition hex_content :: "char \<Rightarrow> bool" where
  "hex_content c = (ishex c \<or> isspace c)"

section \<open>Decimal numerals\<close>

text \<open>
  The bytes that spell a natural number in decimal, and what it means for a value to be
  the link \<open>(a, b)\<close>, for stating what the reader makes of \<^verbatim>\<open>a b R\<close>.
\<close>

function show_nat :: "nat \<Rightarrow> string" where
  "show_nat n = (if n < 10 then [char_of (48 + n)]
                 else show_nat (n div 10) @ [char_of (48 + n mod 10)])"
  by pat_completeness auto
termination
  by (relation "measure id") auto

declare show_nat.simps [simp del]

definition is_link :: "Value \<Rightarrow> nat \<Rightarrow> nat \<Rightarrow> bool" where
  "is_link v a b = (case v of Link n g \<Rightarrow> unat n = a \<and> unat g = b | _ \<Rightarrow> False)"

text \<open>
  The position behind one end-of-line marker (CR LF, LF or CR) at \<open>pos\<close>, for
  comparing with what \<^verbatim>\<open>skipCRLF\<close> skips.
\<close>

definition one_eol_end :: "string \<Rightarrow> int \<Rightarrow> int" where
  "one_eol_end d pos =
     (if byte_at d pos = CHR 0x0D \<and> byte_at d (pos + 1) = CHR 0x0A then pos + 2
      else if byte_at d pos = CHR 0x0A \<or> byte_at d pos = CHR 0x0D then pos + 1
      else pos)"


definition linked_length_example :: string where
  "linked_length_example = ''1 0 obj<</Length 2 0 R>>stream'' @ [CHR 0x0D] @ ''\<newline>abc\<newline>endstream endobj 2 0 obj 3 endobj ''"

definition linked_length_reader :: Reader where
  "linked_length_reader =
     \<lparr>mData = linked_length_example,
      mXRefTable = [2 \<mapsto> \<lparr>entry_pos = 53, entry_objNum = 2, entry_genNum = 0,
                          entry_type = Used\<rparr>],
      mTrailerDict = []\<rparr>"

text \<open>A file whose only object has a stream and a length that links to the object itself.\<close>

definition self_linked_example :: string where
  "self_linked_example = ''%PDF-1.4\<newline>1 0 obj<</Length 1 0 R>>stream\<newline>abc\<newline>endstream endobj ''"

definition self_linked_reader :: Reader where
  "self_linked_reader =
     \<lparr>mData = self_linked_example,
      mXRefTable = [1 \<mapsto> \<lparr>entry_pos = 9, entry_objNum = 1, entry_genNum = 0,
                          entry_type = Used\<rparr>],
      mTrailerDict = []\<rparr>"

section \<open>Reading the buffer at a position\<close>

lemma suffix_at_Cons:
  assumes "suffix_at d i = c # cs"
  shows "byte_at d i = c" and "suffix_at d (i + 1) = cs" and "0 \<le> i" and "i < mSize d"
    and "mSize d = i + 1 + int (length cs)"
proof -
  from assms have i: "0 \<le> i" and dr: "drop (nat i) d = c # cs"
    by (auto simp: suffix_at_def split: if_splits)
  show "byte_at d i = c" using assms by (simp add: byte_at_def)
  show "0 \<le> i" by (rule i)
  have "drop (Suc (nat i)) d = cs"
    using dr by (metis drop_Suc tl_drop list.sel(3))
  then show "suffix_at d (i + 1) = cs"
    using i by (simp add: suffix_at_def nat_add_distrib)
  have "length (drop (nat i) d) = Suc (length cs)" using dr by simp
  then have l: "length d = nat i + Suc (length cs)" by simp
  show "i < mSize d" using l i by (simp add: mSize_def)
  show "mSize d = i + 1 + int (length cs)" using l i by (simp add: mSize_def)
qed

lemma suffix_at_Nil_byte: "suffix_at d i = [] \<Longrightarrow> byte_at d i = CHR 0x00"
  by (simp add: byte_at_def)

section \<open>Octal escapes in literal strings\<close>

lemma isoctal_not_special:
  assumes "isoctal c"
  shows "c \<noteq> CHR 0x5C" "c \<noteq> CHR ''n''" "c \<noteq> CHR ''r''" "c \<noteq> CHR ''t''" "c \<noteq> CHR ''b''" "c \<noteq> CHR ''f''"
  using assms by (auto simp: isoctal_def ord_def)





lemma readLiteralLoop_octal:
  assumes "suffix_at d i = c # cs" and "isoctal c"
  shows "readLiteralLoop d start i level True data
       = (let nj = octalLoop d (to_int32 (min (i + 3) (mSize d))) (i + 1) (ord c - 48)
          in readLiteralLoop d start (snd nj) level False (data @ [char_of (fst nj)]))"
  using suffix_at_Cons [OF assms(1)] assms(2) isoctal_not_special [OF assms(2)]
  by (subst readLiteralLoop.simps) (simp add: readLiteralStep_def isoctal_def Let_def)



text \<open>
  The bound on the size of the buffer is needed. In a larger buffer, at an escaped digit
  at \<open>i\<close> with \<open>i + 3\<close> from \<open>2 ^ 31\<close> up to \<open>2 ^ 32\<close>, the 32-bit bound of the
  inner loop is negative: the loop reads no further digit and the escape is the byte of
  its first digit alone.
\<close>

lemma octal_escape_wide_buffer:
  assumes "suffix_at d i = c # cs" and "isoctal c"
    and "2147483648 \<le> i + 3" and "i + 3 < 4294967296" and "i + 3 \<le> mSize d"
  shows "readLiteralLoop d start i level True data
       = readLiteralLoop d start (i + 1) level False (data @ [char_of (ord c - 48)])"
proof -
  have m: "min (i + 3) (mSize d) = i + 3"
    using assms(5) by simp
  have "(i + 3 + 2147483648) mod 4294967296
      = (i + 3 - 2147483648 + 4294967296) mod 4294967296"
    by simp
  also have "\<dots> = (i + 3 - 2147483648) mod 4294967296"
    by (rule mod_add_self2)
  also have "\<dots> = i + 3 - 2147483648"
    using assms(3,4) by (intro mod_pos_pos_trivial) auto
  finally have "to_int32 (i + 3) = i + 3 - 4294967296"
    by (simp add: to_int32_def)
  with m have "\<not> i + 1 < to_int32 (min (i + 3) (mSize d))"
    by simp
  then have "octalLoop d (to_int32 (min (i + 3) (mSize d))) (i + 1) (ord c - 48)
      = (ord c - 48, i + 1)"
    by (subst octalLoop.simps) simp
  then show ?thesis
    by (subst readLiteralLoop_octal [OF assms(1,2)]) (simp add: Let_def)
qed

section \<open>Hexadecimal strings\<close>

lemma length_hex_bytes: "length (hex_bytes ds) = (length ds + 1) div 2"
  by (induction ds rule: hex_bytes.induct) auto

lemma ishex_not_space: "ishex c \<Longrightarrow> \<not> isspace c"
  by (auto simp: ishex_def isspace_def ord_def)

lemma isspace_ord: "isspace c \<Longrightarrow> ord c \<le> 32"
  by (auto simp: isspace_def ord_def)

lemma readHexLoop_digit_first:
  assumes "suffix_at d pos = c # cs" and "ishex c"
  shows "readHexLoop d start pos True r data = readHexLoop d start (pos + 1) False (hex_val c) data"
  using suffix_at_Cons [OF assms(1)] assms(2)
  by (subst readHexLoop.simps) (auto simp: ishex_def hex_val_def Let_def)

lemma readHexLoop_digit_second:
  assumes "suffix_at d pos = c # cs" and "ishex c"
  shows "readHexLoop d start pos False r data
       = readHexLoop d start (pos + 1) True r (data @ [char_of (r * 16 + hex_val c)])"
  using suffix_at_Cons [OF assms(1)] assms(2)
  by (subst readHexLoop.simps) (auto simp: ishex_def hex_val_def Let_def)

lemma readHexLoop_space:
  assumes "suffix_at d pos = c # cs" and "isspace c"
  shows "readHexLoop d start pos first r data = readHexLoop d start (pos + 1) first r data"
  using suffix_at_Cons [OF assms(1)] assms(2) isspace_ord [OF assms(2)]
  by (subst readHexLoop.simps) (auto simp: Let_def)

lemma readHexLoop_close:
  assumes "suffix_at d pos = CHR ''>'' # cs"
  shows "readHexLoop d start pos first r data
       = Inr (String (if \<not> first then data @ [char_of (r * 16)] else data) HexEncoded, pos + 1)"
  using suffix_at_Cons [OF assms(1)]
  by (subst readHexLoop.simps) (auto simp: Let_def ord_def isspace_def)

lemma readHexLoop_bad:
  assumes "suffix_at d pos = c # cs" and "\<not> ishex c" and "\<not> isspace c" and "c \<noteq> CHR ''>''"
  shows "readHexLoop d start pos first r data = Inl (ParseError pos)"
  using suffix_at_Cons [OF assms(1)] assms(2-)
  by (subst readHexLoop.simps) (auto simp: Let_def ishex_def)

lemma readHexLoop_content:
  assumes "list_all hex_content content" and "suffix_at d pos = content @ CHR ''>'' # rest"
  shows "readHexLoop d start pos True r data
           = Inr (String (data @ hex_bytes (filter ishex content)) HexEncoded,
                  pos + int (length content) + 1)
       \<and> readHexLoop d start pos False (hex_val h) data
           = Inr (String (data @ hex_bytes (h # filter ishex content)) HexEncoded,
                  pos + int (length content) + 1)"
  using assms
proof (induction content arbitrary: pos r data h)
  case Nil
  then show ?case by (simp add: readHexLoop_close)
next
  case (Cons c cs)
  then have s: "suffix_at d pos = c # (cs @ CHR ''>'' # rest)" and cs: "list_all hex_content cs"
    by simp_all
  note f = suffix_at_Cons [OF s]
  note ih = Cons.IH [OF cs f(2)]
  show ?case
  proof (cases "ishex c")
    case True
    have "readHexLoop d start pos True r data
        = readHexLoop d start (pos + 1) False (hex_val c) data"
      by (rule readHexLoop_digit_first [OF s True])
    moreover have "readHexLoop d start pos False (hex_val h) data
        = readHexLoop d start (pos + 1) True (hex_val h)
            (data @ [char_of (hex_val h * 16 + hex_val c)])"
      by (rule readHexLoop_digit_second [OF s True])
    ultimately show ?thesis
      using True ih [THEN conjunct1] ih [THEN conjunct2] by (simp add: add.assoc)
  next
    case False
    with Cons.prems have sp: "isspace c" by (simp add: hex_content_def)
    show ?thesis
      using False ih [THEN conjunct1] ih [THEN conjunct2]
      by (simp add: readHexLoop_space [OF s sp] add.assoc)
  qed
qed

lemma readHexLoop_content_bad:
  assumes "list_all hex_content content" and "suffix_at d pos = content @ c # rest"
    and "\<not> ishex c" and "\<not> isspace c" and "c \<noteq> CHR ''>''"
  shows "readHexLoop d start pos first r data = Inl (ParseError (pos + int (length content)))"
  using assms(1,2)
proof (induction content arbitrary: pos first r data)
  case Nil
  then show ?case using assms(3-) by (simp add: readHexLoop_bad)
next
  case (Cons x xs)
  then have s: "suffix_at d pos = x # (xs @ c # rest)" and xs: "list_all hex_content xs"
    by simp_all
  note f = suffix_at_Cons [OF s]
  show ?case
  proof (cases "ishex x")
    case True
    show ?thesis
    proof (cases first)
      case True
      then show ?thesis
        using Cons.IH [OF xs f(2)] \<open>ishex x\<close> s
        by (simp add: readHexLoop_digit_first [OF s] add.assoc)
    next
      case False
      then show ?thesis
        using Cons.IH [OF xs f(2)] \<open>ishex x\<close> s
        by (simp add: readHexLoop_digit_second [OF s] add.assoc)
    qed
  next
    case False
    with Cons.prems have sp: "isspace x" by (simp add: hex_content_def)
    show ?thesis
      using Cons.IH [OF xs f(2)]
      by (simp add: readHexLoop_space [OF s sp] add.assoc)
  qed
qed

lemma hex_bytes_eq_Nil: "hex_bytes ds = [] \<longleftrightarrow> ds = []"
  by (induction ds rule: hex_bytes.induct) auto

lemma hex_bytes_odd_last:
  "odd (length ds) \<Longrightarrow> last (hex_bytes ds) = char_of (hex_val (last ds) * 16)"
  by (induction ds rule: hex_bytes.induct) (auto simp: hex_bytes_eq_Nil)

text \<open>
  C7. A hexadecimal string \<^verbatim>\<open><...>\<close> whose content is made of hexadecimal digits
  and white space only decodes to the bytes of its digits, white space ignored: \<open>n\<close>
  digits give \<open>(n + 1) div 2\<close> bytes, which is \<open>n div 2\<close> for an even \<open>n\<close>, one byte
  for each pair of digits; with an odd \<open>n\<close> the last byte is the last digit times 16.
  The reader returns the position behind the closing \<^verbatim>\<open>>\<close>. A byte that is neither a
  digit, white space nor \<^verbatim>\<open>>\<close> is a parse error at its position.
\<close>

theorem hex_string_decoding:
  assumes "list_all hex_content content"
  shows "(suffix_at d start = CHR ''<'' # content @ CHR ''>'' # rest \<longrightarrow>
            readHexString d start
              = Inr (String (hex_bytes (filter ishex content)) HexEncoded,
                     start + int (length content) + 2)
            \<and> length (hex_bytes (filter ishex content))
              = (length (filter ishex content) + 1) div 2
            \<and> (even (length (filter ishex content)) \<longrightarrow>
                 length (hex_bytes (filter ishex content)) = length (filter ishex content) div 2)
            \<and> (odd (length (filter ishex content)) \<longrightarrow>
                 last (hex_bytes (filter ishex content))
                   = char_of (hex_val (last (filter ishex content)) * 16)))
       \<and> (suffix_at d start = CHR ''<'' # content @ c # rest
            \<and> \<not> ishex c \<and> \<not> isspace c \<and> c \<noteq> CHR ''>'' \<longrightarrow>
            readHexString d start = Inl (ParseError (start + 1 + int (length content))))"
proof (intro conjI impI)
  assume s: "suffix_at d start = CHR ''<'' # content @ CHR ''>'' # rest"
  note f = suffix_at_Cons [OF s]
  show "readHexString d start
      = Inr (String (hex_bytes (filter ishex content)) HexEncoded, start + int (length content) + 2)"
    using readHexLoop_content [OF assms f(2), of start 0 "[]", THEN conjunct1]
    by (simp add: readHexString_def add.assoc)
next
  show "length (hex_bytes (filter ishex content)) = (length (filter ishex content) + 1) div 2"
    by (rule length_hex_bytes)
next
  assume "even (length (filter ishex content))"
  then show "length (hex_bytes (filter ishex content)) = length (filter ishex content) div 2"
    by (simp add: length_hex_bytes)
next
  assume "odd (length (filter ishex content))"
  then show "last (hex_bytes (filter ishex content))
      = char_of (hex_val (last (filter ishex content)) * 16)"
    by (rule hex_bytes_odd_last)
next
  assume a: "suffix_at d start = CHR ''<'' # content @ c # rest
      \<and> \<not> ishex c \<and> \<not> isspace c \<and> c \<noteq> CHR ''>''"
  then have s: "suffix_at d start = CHR ''<'' # (content @ c # rest)" by simp
  note f = suffix_at_Cons [OF s]
  show "readHexString d start = Inl (ParseError (start + 1 + int (length content)))"
    using readHexLoop_content_bad [OF assms f(2), of start True 0 "[]"] a
    by (simp add: readHexString_def)
qed

theorem hex_string_decoding_witness:
  "list_all hex_content ''901FA''
   \<and> suffix_at ''<901FA>'' 0 = CHR ''<'' # ''901FA'' @ CHR ''>'' # []
   \<and> odd (length (filter ishex ''901FA''))
   \<and> readHexString ''<901FA>'' 0 = Inr (String [CHR 0x90, CHR 0x1F, CHR 0xA0] HexEncoded, 7)
   \<and> last (hex_bytes (filter ishex ''901FA'')) = char_of (hex_val (CHR ''A'') * 16)
   \<and> list_all hex_content ''6 1''
   \<and> suffix_at ''<6 1x>'' 0 = CHR ''<'' # ''6 1'' @ CHR ''x'' # ''>''
   \<and> \<not> ishex (CHR ''x'') \<and> \<not> isspace (CHR ''x'')
   \<and> readHexString ''<6 1x>'' 0 = Inl (ParseError 4)"
proof -
  have h1: "list_all hex_content ''901FA''"
    by (simp add: hex_content_def ishex_def ord_def)
  have s1: "suffix_at ''<901FA>'' 0 = CHR ''<'' # ''901FA'' @ CHR ''>'' # []"
    by (simp add: suffix_at_def)
  have o1: "odd (length (filter ishex ''901FA''))"
    by (simp add: ishex_def ord_def)
  have b1: "hex_bytes (filter ishex ''901FA'') = [CHR 0x90, CHR 0x1F, CHR 0xA0]"
    by code_simp
  have l1: "last (filter ishex ''901FA'') = CHR ''A''"
    by (simp add: ishex_def ord_def)
  have h2: "list_all hex_content ''6 1''"
    by (simp add: hex_content_def ishex_def isspace_def ord_def)
  have s2: "suffix_at ''<6 1x>'' 0 = CHR ''<'' # ''6 1'' @ CHR ''x'' # ''>''"
    by (simp add: suffix_at_def)
  have x: "\<not> ishex (CHR ''x'')" "\<not> isspace (CHR ''x'')"
    by (simp_all add: ishex_def isspace_def ord_def)
  note t1 = hex_string_decoding [OF h1, of "''<901FA>''" 0 "[]", THEN conjunct1, rule_format, OF s1]
  note t2 = hex_string_decoding [OF h2, of "''<6 1x>''" 0 "''>''" "CHR ''x''", THEN conjunct2, rule_format]
  have r1: "readHexString ''<901FA>'' 0 = Inr (String [CHR 0x90, CHR 0x1F, CHR 0xA0] HexEncoded, 7)"
    using t1 [THEN conjunct1] b1 by simp
  have r2: "last (hex_bytes (filter ishex ''901FA'')) = char_of (hex_val (CHR ''A'') * 16)"
    using t1 [THEN conjunct2, THEN conjunct2, THEN conjunct2, rule_format, OF o1] l1 by simp
  have r3: "readHexString ''<6 1x>'' 0 = Inl (ParseError 4)"
    using t2 s2 x by simp
  from h1 s1 o1 r1 r2 h2 s2 x r3 show ?thesis by (simp only: simp_thms)
qed

section \<open>Numbers and links\<close>

lemma isdigit_char_of: "k < 10 \<Longrightarrow> isdigit (char_of (48 + k :: nat))"
  by (simp add: isdigit_def ord_def)

lemma digit_val_char_of: "k < 10 \<Longrightarrow> digit_val (char_of (48 + k :: nat)) = k"
  by (simp add: digit_val_def ord_def)

lemma show_nat_not_Nil: "show_nat n \<noteq> []"
  by (subst show_nat.simps) simp

lemma show_nat_digits: "list_all isdigit (show_nat n)"
proof (induction n rule: show_nat.induct)
  case (1 n)
  then show ?case
    by (subst show_nat.simps) (simp add: isdigit_char_of)
qed

lemma decimal_acc_append:
  "decimal_acc acc (xs @ ys) = decimal_acc (decimal_acc acc xs) ys"
  by (induction xs arbitrary: acc) simp_all

lemma decimal_show_nat: "decimal (show_nat n) = int n"
proof (induction n rule: show_nat.induct)
  case (1 n)
  show ?case
  proof (cases "n < 10")
    case True
    then show ?thesis
      by (subst show_nat.simps) (simp add: decimal_def digit_val_char_of)
  next
    case False
    then have "decimal (show_nat n)
        = decimal (show_nat (n div 10)) * 10 + int (n mod 10)"
      by (subst show_nat.simps)
         (simp add: decimal_def decimal_acc_append digit_val_char_of)
    also have "\<dots> = int (n div 10) * 10 + int (n mod 10)"
      using False by (simp add: "1.IH")
    also have "\<dots> = int n"
      by (simp add: zdiv_int zmod_int)
    finally show ?thesis .
  qed
qed

lemma decimal_acc_nonneg: "0 \<le> acc \<Longrightarrow> 0 \<le> decimal_acc acc ds"
  by (induction ds arbitrary: acc) simp_all

lemma isdigit_not_space: "isdigit c \<Longrightarrow> \<not> isspace c"
  by (auto simp: isdigit_def isspace_def ord_def)

lemma isdigit_not_sign: "isdigit c \<Longrightarrow> c \<noteq> CHR ''-'' \<and> c \<noteq> CHR ''+'' \<and> c \<noteq> CHR ''.''"
  by (auto simp: isdigit_def ord_def)

lemma takeWhile_digits:
  assumes "list_all isdigit ds" and "\<not> isdigit (first_byte rest)"
  shows "takeWhile isdigit (ds @ rest) = ds"
proof -
  have "takeWhile isdigit rest = []"
    using assms(2) by (cases rest) simp_all
  then show ?thesis
    using assms(1) by (simp add: takeWhile_append2 list_all_iff)
qed

lemma scan_digits:
  assumes "ds \<noteq> []" and "list_all isdigit ds" and "\<not> isdigit (first_byte rest)"
  shows "dropWhile isspace (ds @ rest) = ds @ rest"
    and "scan_sign (ds @ rest) = (False, ds @ rest)"
proof -
  from assms(1) obtain c cs where ds: "ds = c # cs" by (cases ds) auto
  with assms(2) have c: "isdigit c" by simp
  show "dropWhile isspace (ds @ rest) = ds @ rest"
    using ds isdigit_not_space [OF c] by simp
  show "scan_sign (ds @ rest) = (False, ds @ rest)"
    using ds isdigit_not_sign [OF c] by (simp add: scan_sign_def)
qed

lemma strtoul_digits:
  assumes "ds \<noteq> []" and "list_all isdigit ds" and "\<not> isdigit (first_byte rest)"
  shows "strtoul (ds @ rest)
       = (if 2 ^ 64 \<le> decimal ds then 2 ^ 64 - 1 else decimal ds, length ds)"
  using assms(1)
  by (simp add: strtoul_def scan_digits [OF assms] takeWhile_digits [OF assms(2,3)] Let_def)

lemma strtoll_digits:
  assumes "ds \<noteq> []" and "list_all isdigit ds" and "\<not> isdigit (first_byte rest)"
  shows "strtoll (ds @ rest) = (min (2 ^ 63 - 1) (decimal ds), length ds)"
  using assms(1)
  by (simp add: strtoll_def scan_digits [OF assms] takeWhile_digits [OF assms(2,3)] Let_def)

lemma suffix_at_add:
  assumes "0 \<le> pos"
  shows "suffix_at d (pos + int k) = drop k (suffix_at d pos)"
  using assms by (simp add: suffix_at_def nat_add_distrib add.commute)

lemma suffix_at_append:
  assumes "suffix_at d pos = xs @ ys" and "0 \<le> pos"
  shows "suffix_at d (pos + int (length xs)) = ys"
  using assms by (simp add: suffix_at_add)

lemma skipSpace_takeWhile:
  "0 \<le> pos \<Longrightarrow> skipSpace d pos = pos + int (length (takeWhile isspace (suffix_at d pos)))"
proof (induction d pos rule: skipSpace.induct)
  case (1 d pos)
  show ?case
  proof (cases "suffix_at d pos")
    case Nil
    then have "byte_at d pos = CHR 0x00" by (simp add: byte_at_def)
    then have "\<not> isspace (byte_at d pos)" by (simp add: isspace_def)
    then show ?thesis using Nil by (subst skipSpace.simps) simp
  next
    case (Cons c cs)
    note f = suffix_at_Cons [OF Cons]
    show ?thesis
    proof (cases "isspace c")
      case True
      then have "skipSpace d pos = skipSpace d (pos + 1)"
        using f by (subst skipSpace.simps) simp
      also have "\<dots> = pos + 1 + int (length (takeWhile isspace cs))"
        using "1.IH" "1.prems" f True by simp
      finally show ?thesis using Cons True by simp
    next
      case False
      then show ?thesis using Cons f by (subst skipSpace.simps) simp
    qed
  qed
qed


lemma suffix_at_nonneg: "suffix_at d pos \<noteq> [] \<Longrightarrow> 0 \<le> pos"
  by (simp add: suffix_at_def split: if_splits)

lemma byte_at_suffix: "suffix_at d pos = xs \<Longrightarrow> byte_at d pos = first_byte xs"
  by (simp add: byte_at_def)

lemma first_byte_append: "xs \<noteq> [] \<Longrightarrow> first_byte (xs @ ys) = first_byte xs"
  by (cases xs) simp_all

lemma first_byte_list_all: "xs \<noteq> [] \<Longrightarrow> list_all P xs \<Longrightarrow> P (first_byte xs)"
  by (cases xs) simp_all

lemma skipSpace_spaces:
  assumes "suffix_at d p = sp @ tail" and "list_all isspace sp"
    and "\<not> isspace (first_byte tail)" and "0 \<le> p"
  shows "skipSpace d p = p + int (length sp)"
proof -
  have "takeWhile isspace tail = []"
    using assms(3) by (cases tail) simp_all
  then have "takeWhile isspace (sp @ tail) = sp"
    using assms(2) by (simp add: takeWhile_append2 list_all_iff)
  then show ?thesis
    using assms(1,4) by (simp add: skipSpace_takeWhile)
qed

lemma readNum_digits:
  assumes "ds \<noteq> []" and "list_all isdigit ds" and "suffix_at d pos = ds @ tail"
    and "\<not> isdigit (first_byte tail)" and "first_byte tail \<noteq> CHR ''.''"
    and "decimal ds < 2 ^ 63"
  shows "readNum d pos = (of_int (decimal ds), True, pos + int (length ds))"
proof -
  have nn: "0 \<le> pos" using assms(1,3) suffix_at_nonneg [of d pos] by simp
  have d0: "isdigit (byte_at d pos)"
    using assms(1,2,3) by (simp add: byte_at_suffix first_byte_append first_byte_list_all)
  then have neg: "byte_at d pos \<noteq> CHR ''-''" using isdigit_not_sign by blast
  have st: "strtoll (suffix_at d pos) = (decimal ds, length ds)"
    using assms(6) by (simp add: assms(3) strtoll_digits [OF assms(1,2,4)])
  have e: "byte_at d (pos + int (length ds)) = first_byte tail"
    using suffix_at_append [OF assms(3) nn] by (simp add: byte_at_def)
  show ?thesis
    using assms(1,5) by (simp add: readNum_def neg st e Let_def)
qed

lemma readUInt_digits:
  assumes "ds \<noteq> []" and "list_all isdigit ds" and "suffix_at d pos = ds @ tail"
    and "\<not> isdigit (first_byte tail)"
  shows "readUInt d pos
       = (word_of_int (if 2 ^ 64 \<le> decimal ds then 2 ^ 64 - 1 else decimal ds), True,
          pos + int (length ds))"
  using assms(1) by (simp add: readUInt_def assms(3) strtoul_digits [OF assms(1,2,4)])


lemma readValue_digit_lookahead:
  assumes as: "as \<noteq> []" "list_all isdigit as" and bs: "bs \<noteq> []" "list_all isdigit bs"
    and sp: "sp \<noteq> []" "list_all isspace sp"
    and s: "suffix_at d pos = as @ sp @ bs @ tail"
    and tail: "\<not> isdigit (first_byte tail)"
    and small: "decimal as < 2 ^ 63"
  shows "readValue d pos
       = (let p3 = skipSpace d (pos + int (length as) + int (length sp) + int (length bs))
          in if byte_at d p3 \<noteq> CHR ''R'' then Inr (Number (of_int (decimal as)), pos + int (length as))
             else Inr (Link (word_of_int (decimal as))
                        (ucast (word_of_int (if 2 ^ 64 \<le> decimal bs then 2 ^ 64 - 1
                                             else decimal bs) :: 32 word)),
                       p3 + 1))"
proof -
  have nn: "0 \<le> pos" using as(1) s suffix_at_nonneg [of d pos] by simp
  have sp1: "isspace (first_byte (sp @ bs @ tail))"
    using sp by (simp add: first_byte_append first_byte_list_all)
  then have sp1': "\<not> isdigit (first_byte (sp @ bs @ tail))"
    "first_byte (sp @ bs @ tail) \<noteq> CHR ''.''"
    using isdigit_not_space by (auto simp: isspace_def)
  have b1: "isdigit (first_byte (bs @ tail))"
    using bs by (simp add: first_byte_append first_byte_list_all)
  have d0: "isdigit (byte_at d pos)"
    using as s by (simp add: byte_at_suffix first_byte_append first_byte_list_all)
  have rv: "readValue d pos = readValue_digit d pos"
    using d0 by (subst readValue.simps) (simp add: Let_def)
  have n: "readNum d pos = (of_int (decimal as), True, pos + int (length as))"
    using readNum_digits [OF as s sp1' small] .
  have s1: "suffix_at d (pos + int (length as)) = sp @ bs @ tail"
    using suffix_at_append [OF s nn] .
  have k1: "skipSpace d (pos + int (length as)) = pos + int (length as) + int (length sp)"
    using skipSpace_spaces [OF s1 sp(2)] isdigit_not_space [OF b1] nn by simp
  have s2: "suffix_at d (pos + int (length as) + int (length sp)) = bs @ tail"
    using suffix_at_append [OF s1] nn by simp
  have u: "readUInt d (pos + int (length as) + int (length sp))
      = (word_of_int (if 2 ^ 64 \<le> decimal bs then 2 ^ 64 - 1 else decimal bs), True,
         pos + int (length as) + int (length sp) + int (length bs))"
    using readUInt_digits [OF bs s2 tail] .
  show ?thesis
    unfolding rv readValue_digit_def n
    by (simp only: k1 u Let_def prod.case floor_of_int simp_thms if_False if_True)
qed


lemma space_word: "list_all isspace '' ''" "'' '' \<noteq> []"
  by (simp_all add: isspace_def)

lemma word32_of_small: "a < 2 ^ 32 \<Longrightarrow> unat (word_of_nat a :: 32 word) = a"
  by (simp add: unat_of_nat)

lemma word16_of_small: "b < 2 ^ 16 \<Longrightarrow> unat (word_of_nat b :: 16 word) = b"
  by (simp add: unat_of_nat)

lemma ucast_32_16: "ucast (word_of_int b :: 32 word) = (word_of_int b :: 16 word)"
  by (rule bit_word_eqI) (auto simp add: bit_simps)

lemma ucast_32_16_nat: "ucast (word_of_nat b :: 32 word) = (word_of_nat b :: 16 word)"
  using ucast_32_16 [of "int b"] by simp

text \<open>
  C2, as amended. Where the bytes spell \<^verbatim>\<open>a b R\<close> for \<open>a < 2^32\<close> and
  \<open>b < 2^16\<close> (the widths of a link's two numbers), the value parser returns the link
  \<open>(a, b)\<close> and the position behind the \<open>R\<close>. Where they spell \<^verbatim>\<open>a b\<close> for
  \<open>a < 2^53\<close> and any \<open>b\<close>, and the next byte that is not white space is not an
  \<open>R\<close>, it returns the number \<open>a\<close> and the position right behind \<open>a\<close>: the
  look-ahead has consumed nothing.
\<close>

theorem number_or_link:
  "(a < 2 ^ 32 \<and> b < 2 ^ 16
      \<and> suffix_at d pos = show_nat a @ '' '' @ show_nat b @ '' R'' @ rest
    \<longrightarrow> readValue d pos
          = Inr (Link (word_of_nat a) (word_of_nat b),
                 pos + int (length (show_nat a)) + int (length (show_nat b)) + 3)
        \<and> is_link (Link (word_of_nat a) (word_of_nat b)) a b)
   \<and> (a < 2 ^ 53
      \<and> suffix_at d pos = show_nat a @ '' '' @ show_nat b @ rest
      \<and> \<not> isdigit (first_byte rest) \<and> first_byte (dropWhile isspace rest) \<noteq> CHR ''R''
    \<longrightarrow> readValue d pos = Inr (Number (of_nat a), pos + int (length (show_nat a))))"
proof (intro conjI impI)
  assume h: "a < 2 ^ 32 \<and> b < 2 ^ 16
      \<and> suffix_at d pos = show_nat a @ '' '' @ show_nat b @ '' R'' @ rest"
  then have a: "a < 2 ^ 32" and b: "b < 2 ^ 16"
    and s: "suffix_at d pos = show_nat a @ '' '' @ show_nat b @ ('' R'' @ rest)"
    by simp_all
  show "is_link (Link (word_of_nat a) (word_of_nat b)) a b"
    using word32_of_small [OF a] word16_of_small [OF b] by (simp add: is_link_def)
  have nn: "0 \<le> pos" using s show_nat_not_Nil [of a] suffix_at_nonneg [of d pos] by simp
  let ?p2 = "pos + int (length (show_nat a)) + int (length '' '') + int (length (show_nat b))"
  have s2: "suffix_at d ?p2 = '' '' @ (CHR ''R'' # rest)"
    using suffix_at_append [of d pos "show_nat a @ '' '' @ show_nat b" "'' R'' @ rest"] s nn
    by (simp add: ac_simps)
  have k: "skipSpace d ?p2 = ?p2 + 1"
    using skipSpace_spaces [OF s2 space_word(1)] nn by (simp add: isspace_def)
  have r: "byte_at d (?p2 + 1) = CHR ''R''"
    using suffix_at_append [OF s2] nn by (simp add: byte_at_def)
  have da: "decimal (show_nat a) < 2 ^ 63" using a by (simp add: decimal_show_nat)
  have db: "\<not> 2 ^ 64 \<le> decimal (show_nat b)" using b by (simp add: decimal_show_nat)
  have "readValue d pos
      = Inr (Link (word_of_int (int a)) (ucast (word_of_int (int b) :: 32 word)), ?p2 + 1 + 1)"
    using readValue_digit_lookahead [OF show_nat_not_Nil show_nat_digits show_nat_not_Nil
        show_nat_digits space_word(2,1) s _ da] db
    by (simp only: k r Let_def decimal_show_nat) (simp add: isdigit_def ord_def)
  then show "readValue d pos
      = Inr (Link (word_of_nat a) (word_of_nat b),
             pos + int (length (show_nat a)) + int (length (show_nat b)) + 3)"
    by (simp add: ucast_32_16_nat)
next
  assume h: "a < 2 ^ 53
      \<and> suffix_at d pos = show_nat a @ '' '' @ show_nat b @ rest
      \<and> \<not> isdigit (first_byte rest) \<and> first_byte (dropWhile isspace rest) \<noteq> CHR ''R''"
  then have a: "a < 2 ^ 53"
    and s: "suffix_at d pos = show_nat a @ '' '' @ show_nat b @ rest"
    and r1: "\<not> isdigit (first_byte rest)"
    and r2: "first_byte (dropWhile isspace rest) \<noteq> CHR ''R''"
    by simp_all
  have nn: "0 \<le> pos" using s show_nat_not_Nil [of a] suffix_at_nonneg [of d pos] by simp
  let ?p2 = "pos + int (length (show_nat a)) + int (length '' '') + int (length (show_nat b))"
  have s2: "suffix_at d ?p2 = rest"
    using suffix_at_append [of d pos "show_nat a @ '' '' @ show_nat b" rest] s nn
    by (simp add: ac_simps)
  have "0 \<le> ?p2" using nn by simp
  then have k: "skipSpace d ?p2 = ?p2 + int (length (takeWhile isspace rest))"
    using s2 by (simp only: skipSpace_takeWhile)
  have "suffix_at d (?p2 + int (length (takeWhile isspace rest))) = dropWhile isspace rest"
    using suffix_at_append [of d ?p2 "takeWhile isspace rest" "dropWhile isspace rest"] s2 nn
    by simp
  then have r: "byte_at d (?p2 + int (length (takeWhile isspace rest))) \<noteq> CHR ''R''"
    using r2 by (simp add: byte_at_def)
  have da: "decimal (show_nat a) < 2 ^ 63"
    using a by (simp add: decimal_show_nat)
  show "readValue d pos = Inr (Number (of_nat a), pos + int (length (show_nat a)))"
    using readValue_digit_lookahead [OF show_nat_not_Nil show_nat_digits show_nat_not_Nil
        show_nat_digits space_word(2,1) s r1 da] r
    by (simp only: k Let_def decimal_show_nat) simp
qed


theorem number_or_link_witness:
  "(12::nat) < 2 ^ 32 \<and> (0::nat) < 2 ^ 16
   \<and> suffix_at ''12 0 R'' 0 = show_nat 12 @ '' '' @ show_nat 0 @ '' R'' @ []
   \<and> readValue ''12 0 R'' 0 = Inr (Link 12 0, 6)
   \<and> is_link (Link 12 0) 12 0
   \<and> (12::nat) < 2 ^ 53
   \<and> suffix_at ''12 0 obj'' 0 = show_nat 12 @ '' '' @ show_nat 0 @ '' obj''
   \<and> \<not> isdigit (first_byte '' obj'')
   \<and> first_byte (dropWhile isspace '' obj'') \<noteq> CHR ''R''
   \<and> readValue ''12 0 obj'' 0 = Inr (Number 12, 2)"
proof -
  have s12: "show_nat 12 = ''12''"
    by code_simp
  have s0: "show_nat 0 = ''0''"
    by code_simp
  have h1: "(12::nat) < 2 ^ 32 \<and> (0::nat) < 2 ^ 16
      \<and> suffix_at ''12 0 R'' 0 = show_nat 12 @ '' '' @ show_nat 0 @ '' R'' @ []"
    by (simp add: s12 s0 suffix_at_def)
  have h2: "(12::nat) < 2 ^ 53
      \<and> suffix_at ''12 0 obj'' 0 = show_nat 12 @ '' '' @ show_nat 0 @ '' obj''
      \<and> \<not> isdigit (first_byte '' obj'')
      \<and> first_byte (dropWhile isspace '' obj'') \<noteq> CHR ''R''"
    by (simp add: s12 s0 suffix_at_def isdigit_def isspace_def ord_def)
  note t1 = number_or_link [of 12 0 "''12 0 R''" 0 "[]", THEN conjunct1, rule_format, OF h1]
  note t2 = number_or_link [of 12 0 "''12 0 obj''" 0 "'' obj''", THEN conjunct2, rule_format, OF h2]
  from h1 h2 t1 t2 show ?thesis
    by (simp add: s12 s0)
qed

text \<open>
  C2 as stated, for all \<open>a\<close> and \<open>b\<close>, fails where a number does not fit: the second
  number is read by \<^verbatim>\<open>readUInt\<close> into 32 bits, so \<^verbatim>\<open>1 4294967296 R\<close> is read as
  the link \<open>(1, 0)\<close>.
\<close>

theorem link_generation_wraps:
  "readValue ''1 4294967296 R'' 0 = Inr (Link 1 0, 14)
   \<and> \<not> is_link (Link 1 0) 1 4294967296"
proof -
  have "readValue ''1 4294967296 R'' 0 = Inr (Link 1 0, 14)"
    by code_simp
  then show ?thesis by (simp add: is_link_def)
qed

section \<open>Booleans\<close>

lemma readValue_false_word:
  assumes "byte_at d pos = CHR ''f''" and "compareWord d pos ''false''"
  shows "readValue d pos = Inr (Bool True, pos + 5)"
proof -
  have "\<not> compareWord d pos ''true''"
    using assms(1) by (cases "suffix_at d pos") (auto simp: compareWord_def strncmp_eq_def byte_at_def)
  then show ?thesis
    using assms by (subst readValue.simps) (simp add: Let_def isdigit_def ord_def readValue_bool_def)
qed

text \<open>
  C5. The word \<^verbatim>\<open>true\<close> followed by a delimiter is read as the boolean true and
  4 bytes, and a word that starts with \<open>t\<close> or \<open>f\<close> and is neither is a parse error;
  the word \<^verbatim>\<open>false\<close> followed by a delimiter takes 5 bytes and is read as the
  boolean true as well, since its branch returns \<^verbatim>\<open>Bool(true)\<close>.
\<close>

theorem false_is_read_as_true:
  "readValue ''false ]'' 0 = Inr (Bool True, 5)
   \<and> readValue ''true ]'' 0 = Inr (Bool True, 4)
   \<and> readValue ''fals ]'' 0 = Inl (ParseError 0)"
  by code_simp

section \<open>Reading objects\<close>










text \<open>
  The equations that evaluate the reader on a given buffer. A recursive function is
  unfolded only at a position that is a numeral, so that the simplifier never unfolds it
  at a position it does not know yet.
\<close>

lemmas skipSpace_eval =
  skipSpace.simps [of _ 0] skipSpace.simps [of _ 1]
  skipSpace.simps [of _ "numeral n"] skipSpace.simps [of _ "- numeral n"] for n

lemmas indexOfFrom_eval =
  indexOfFrom.simps [of _ _ 0] indexOfFrom.simps [of _ _ 1]
  indexOfFrom.simps [of _ _ "numeral n"] indexOfFrom.simps [of _ _ "- numeral n"] for n

lemmas indexOfBackFrom_eval =
  indexOfBackFrom.simps [of _ _ 0] indexOfBackFrom.simps [of _ _ 1]
  indexOfBackFrom.simps [of _ _ "numeral n"] indexOfBackFrom.simps [of _ _ "- numeral n"] for n

lemmas skipCRLF_eval =
  skipCRLF.simps [of _ 0] skipCRLF.simps [of _ 1]
  skipCRLF.simps [of _ "numeral n"] skipCRLF.simps [of _ "- numeral n"] for n

lemmas skipComment_eval =
  skipComment.simps [of _ 0] skipComment.simps [of _ 1]
  skipComment.simps [of _ "numeral n"] skipComment.simps [of _ "- numeral n"] for n

lemmas readNameLoop_eval =
  readNameLoop.simps [of _ _ 0] readNameLoop.simps [of _ _ 1]
  readNameLoop.simps [of _ _ "numeral n"] readNameLoop.simps [of _ _ "- numeral n"] for n

lemmas readHexLoop_eval =
  readHexLoop.simps [of _ _ 0] readHexLoop.simps [of _ _ 1]
  readHexLoop.simps [of _ _ "numeral n"] readHexLoop.simps [of _ _ "- numeral n"] for n

lemmas octalLoop_eval =
  octalLoop.simps [of _ _ 0] octalLoop.simps [of _ _ 1]
  octalLoop.simps [of _ _ "numeral n"] octalLoop.simps [of _ _ "- numeral n"] for n

lemmas readLiteralLoop_eval =
  readLiteralLoop.simps [of _ _ 0] readLiteralLoop.simps [of _ _ 1]
  readLiteralLoop.simps [of _ _ "numeral n"] readLiteralLoop.simps [of _ _ "- numeral n"] for n

lemmas readValue_eval =
  readValue.simps [of _ 0] readValue.simps [of _ 1]
  readValue.simps [of _ "numeral n"] readValue.simps [of _ "- numeral n"] for n

lemmas readArrayLoop_eval =
  readArrayLoop.simps [of _ _ 0] readArrayLoop.simps [of _ _ 1]
  readArrayLoop.simps [of _ _ "numeral n"] readArrayLoop.simps [of _ _ "- numeral n"] for n

lemmas readDictLoop_eval =
  readDictLoop.simps [of _ _ 0] readDictLoop.simps [of _ _ 1]
  readDictLoop.simps [of _ _ "numeral n"] readDictLoop.simps [of _ _ "- numeral n"] for n

lemmas reader_eval =
  mSize_def suffix_at_def byte_at_def ord_def isspace_def isdigit_def digit_val_def decimal_def
  scan_sign_def strtoul_def strtoll_def isDelimChar_def isDelim_def skipSpace_eval
  strncmp_eq_def compareStr_def compareWord_def indexOfFrom_eval indexOf_def
  indexOfBackFrom_eval indexOfBack_def skipCRLF_eval readUInt_def readNum_def
  dict_value_def readNameLoop_eval readNameString_def readHexLoop_eval readHexString_def
  octalLoop_eval to_int32_def readLiteralStep_def readLiteralLoop_eval readLiteralString_def
  skipComment_eval readValue_digit_def readValue_float_def readValue_bool_def
  readValue_null_def readValue_name_def readValue_eval readArrayLoop_eval
  readDictLoop_eval readArray_def readDict_def Let_def
  xref_value_def default_entry_def null_object_def to_qint64_def readObjectHead_def
  readObjectStream_def getObject_def one_eol_end_def



text \<open>
  An object whose length links to the object itself: \<^verbatim>\<open>readObject\<close> calls
  \<^verbatim>\<open>getObject\<close>, which calls \<^verbatim>\<open>readObject\<close> at the same offset, and so on: the
  read does not return.
\<close>

lemma self_linked_length_no_return:
  "readObjectHead (mData self_linked_reader) 9 = Inr (1, 0, Dict [(''Length'', Link 1 0)], 33)
   \<and> compareWord (mData self_linked_reader) 33 ''stream''
   \<and> entry_pos (xref_value (mXRefTable self_linked_reader) 1) = 9
   \<and> readObject self_linked_reader 9 = None"
proof -
  have h: "readObjectHead (mData self_linked_reader) 9
      = Inr (1, 0, Dict [(''Length'', Link 1 0)], 33)"
    by (simp add: self_linked_example_def self_linked_reader_def reader_eval)
  have c: "compareWord (mData self_linked_reader) 33 ''stream''"
    by (simp add: self_linked_example_def self_linked_reader_def reader_eval)
  have e: "entry_pos (xref_value (mXRefTable self_linked_reader) 1) = 9"
    by (simp add: self_linked_reader_def reader_eval)
  have nx: "\<not> (rd = self_linked_reader \<and> start = 9)"
    if "readObject rd start = Some y" for rd start y
  proof (rule readObject.raw_induct [OF _ that], goal_cases)
    case (1 f rd start y)
    show ?case
    proof
      assume a: "rd = self_linked_reader \<and> start = 9"
      with 1(2) h c e obtain y' where "f self_linked_reader 9 = Some y'"
        by (auto simp add: Let_def dict_value_def bind_eq_Some_conv)
      from 1(1) [OF this] show False by simp
    qed
  qed
  have "readObject self_linked_reader 9 = None"
  proof (cases "readObject self_linked_reader 9")
    case None
    then show ?thesis .
  next
    case (Some y)
    from nx [OF this] show ?thesis by simp
  qed
  with h c e show ?thesis by (simp only: simp_thms)
qed


section \<open>Looking objects up\<close>

text \<open>
  C9. For an object number that is not in the cross-reference table, or whose entry has
  the offset 0, \<^verbatim>\<open>getObject\<close> returns a default-constructed object: it returns, and
  with no error.
\<close>

theorem getObject_absent_is_null:
  assumes "mXRefTable rd objNum = None
      \<or> (\<exists>e. mXRefTable rd objNum = Some e \<and> entry_pos e = 0)"
  shows "getObject rd objNum genNum = Some (Inr null_object)"
  using assms by (auto simp: getObject_def xref_value_def default_entry_def)

theorem getObject_absent_is_null_witness:
  "mXRefTable linked_length_reader 7 = None
   \<and> getObject linked_length_reader 7 0 = Some (Inr null_object)
   \<and> getObject (linked_length_reader
        \<lparr>mXRefTable := [7 \<mapsto> \<lparr>entry_pos = 0, entry_objNum = 7, entry_genNum = 0,
                                 entry_type = Free\<rparr>]\<rparr>) 7 0
     = Some (Inr null_object)"
proof -
  have a: "mXRefTable linked_length_reader 7 = None"
    by (simp add: linked_length_reader_def)
  have "getObject linked_length_reader 7 0 = Some (Inr null_object)"
    using a by (intro getObject_absent_is_null) simp
  moreover have "getObject (linked_length_reader
        \<lparr>mXRefTable := [7 \<mapsto> \<lparr>entry_pos = 0, entry_objNum = 7, entry_genNum = 0,
                                 entry_type = Free\<rparr>]\<rparr>) 7 0
      = Some (Inr null_object)"
    by (intro getObject_absent_is_null) simp
  ultimately show ?thesis using a by simp
qed

text \<open>
  C10. \<^verbatim>\<open>getObject\<close> does not look at the generation number: two calls for the same
  object number give the same result, whatever the generation numbers, and the overload
  for a link passes the link's two numbers on.
\<close>

theorem getObject_ignores_generation:
  "getObject rd n g1 = getObject rd n g2"
  by (simp add: getObject_def)

section \<open>Merging the cross-reference tables of the revisions\<close>

lemma insert_absent_map_add:
  "(if res n = None then res(n \<mapsto> e) else res) = [n \<mapsto> e] ++ res"
  by (rule ext) (auto simp: map_add_def split: option.splits)

lemma readXRefEntries_map_add:
  "readXRefEntries d pos objNum k res
     = (pos + 20 * int k, snd (readXRefEntries d pos objNum k Map.empty) ++ res)"
proof (induction k arbitrary: pos objNum res)
  case 0
  show ?case by simp
next
  case (Suc k)
  let ?e = "[objNum \<mapsto> readXRefEntry d pos objNum]"
  let ?rest = "snd (readXRefEntries d (pos + 20) (objNum + 1) k Map.empty)"
  have own: "readXRefEntries d pos objNum (Suc k) Map.empty
      = (pos + 20 + 20 * int k, ?rest ++ ?e)"
  proof -
    have "readXRefEntries d pos objNum (Suc k) Map.empty
        = readXRefEntries d (pos + 20) (objNum + 1) k ?e"
      by simp
    also have "\<dots> = (pos + 20 + 20 * int k, ?rest ++ ?e)"
      by (rule Suc.IH)
    finally show ?thesis .
  qed
  have "readXRefEntries d pos objNum (Suc k) res
      = readXRefEntries d (pos + 20) (objNum + 1) k (?e ++ res)"
    by (simp only: readXRefEntries.simps insert_absent_map_add)
  also have "\<dots> = (pos + 20 + 20 * int k, ?rest ++ (?e ++ res))"
    by (rule Suc.IH)
  finally have A: "readXRefEntries d pos objNum (Suc k) res
      = (pos + 20 + 20 * int k, ?rest ++ (?e ++ res))" .
  have B: "snd (readXRefEntries d pos objNum (Suc k) Map.empty) = ?rest ++ ?e"
    by (simp only: own snd_conv)
  have C: "pos + 20 + 20 * int k = pos + 20 * int (Suc k)"
    by simp
  show ?case
    unfolding A B C by (simp only: map_add_assoc)
qed

lemma under_table_simps [simp]:
  "under_table res (Inl e) = Inl e"
  "under_table res (Inr (p, s)) = Inr (p, s ++ res)"
  by (simp_all add: under_table_def)

lemma under_table_twice:
  "under_table res (under_table s r) = under_table (s ++ res) r"
  by (cases r) (auto simp: under_table_def)

lemma readXRefSections_map_add:
  "readXRefSections d pos res = under_table res (readXRefSections d pos Map.empty)"
proof (induction "nat (mSize d - pos)" arbitrary: pos res rule: less_induct)
  case less
  obtain startObjNum ok pos1 where a: "readUInt d pos = (startObjNum, ok, pos1)"
    by (cases "readUInt d pos")
  obtain cnt ok2 pos2 where b: "readUInt d pos1 = (cnt, ok2, pos2)"
    by (cases "readUInt d pos1")
  obtain pos4 own where o:
    "readXRefEntries d (skipSpace d pos2) startObjNum (unat cnt) Map.empty = (pos4, own)"
    by (cases "readXRefEntries d (skipSpace d pos2) startObjNum (unat cnt) Map.empty")
  have p4: "pos4 = skipSpace d pos2 + 20 * int (unat cnt)"
    using readXRefEntries_pos [of d "skipSpace d pos2" startObjNum "unat cnt" Map.empty] o
    by simp
  have e: "readXRefEntries d (skipSpace d pos2) startObjNum (unat cnt) t = (pos4, own ++ t)" for t
    using readXRefEntries_map_add [of d "skipSpace d pos2" startObjNum "unat cnt" t] o p4
    by simp
  have l: "readXRefSections d pos t
      = (if \<not> ok then Inl (ParseError pos1)
         else if \<not> ok2 then Inl (ParseError pos2)
         else if \<not> compareStr d (skipSpace d pos4) ''trailer''
              then readXRefSections d (skipSpace d pos4) (own ++ t)
              else Inr (skipSpace d pos4, own ++ t))" for t
    by (subst readXRefSections.simps) (simp add: a b e)
  show ?case
  proof (cases "ok \<and> ok2 \<and> \<not> compareStr d (skipSpace d pos4) ''trailer''")
    case False
    then show ?thesis
      unfolding l [of res] l [of Map.empty] by auto
  next
    case True
    then have ok: ok ok2 and c: "\<not> compareStr d (skipSpace d pos4) ''trailer''"
      by simp_all
    have "pos < pos1" "pos < mSize d"
      using readUInt_ok_in_buffer [of d pos startObjNum pos1] a ok by simp_all
    moreover have "pos1 \<le> pos2" using readUInt_ge [OF b] .
    moreover have "0 \<le> 20 * int (unat cnt)" by simp
    ultimately have m: "nat (mSize d - skipSpace d pos4) < nat (mSize d - pos)"
      using skipSpace_ge [of pos2 d] skipSpace_ge [of pos4 d] p4 by linarith
    have "readXRefSections d pos res
        = under_table (own ++ res) (readXRefSections d (skipSpace d pos4) Map.empty)"
      unfolding l [of res] using ok c less.hyps [OF m, of "own ++ res"] by simp
    moreover have "readXRefSections d pos Map.empty
        = under_table own (readXRefSections d (skipSpace d pos4) Map.empty)"
      unfolding l [of Map.empty] using ok c less.hyps [OF m, of own] by simp
    ultimately show ?thesis by (simp add: under_table_twice)
  qed
qed

lemma readXRefTable_map_add:
  "readXRefTable d pos res = under_table res (readXRefTable d pos Map.empty)"
  using readXRefSections_map_add [of d _ res]
  by (simp add: readXRefTable_def)


lemma under_table_Inr:
  "under_table res r = Inr (p, t) \<longleftrightarrow> (\<exists>s. r = Inr (p, s) \<and> t = s ++ res)"
  by (cases r) (auto simp: under_table_def)

lemma readXRefTable_own:
  assumes "readXRefTable d pos tbl = Inr (p, tbl')"
  shows "\<exists>s. readXRefTable d pos Map.empty = Inr (p, s) \<and> tbl' = s ++ tbl"
  using assms readXRefTable_map_add [of d pos tbl] by (simp add: under_table_Inr)

lemma readXRefTable_keeps:
  assumes "readXRefTable d pos tbl = Inr (p, tbl')" and "tbl n = Some e"
  shows "tbl' n = Some e"
  using readXRefTable_own [OF assms(1)] assms(2) by (auto simp: map_add_def)

lemma loadPrev_walked:
  assumes "loadPrev d prev tbl = Some r"
  shows "walked d prev tbl r"
proof (rule loadPrev.raw_induct [OF _ assms], goal_cases)
  case (1 f d prev tbl r)
  note ih = 1(1) and body = 1(2)
  show ?case
  proof (cases "prev = 0")
    case True
    with body have "r = Inr tbl" by simp
    moreover have "revisionTables d prev = Some (Inr [])"
      using True by (subst revisionTables.simps) simp
    ultimately show ?thesis
      by (auto simp: walked_def split: option.splits)
  next
    case False
    show ?thesis
    proof (cases "readXRefTable d prev tbl")
      case (Inl e)
      with body False show ?thesis by (auto simp: walked_def)
    next
      case (Inr pt)
      obtain pos tbl1 where pt: "pt = (pos, tbl1)" by (cases pt)
      from readXRefTable_own [of d prev tbl pos tbl1] Inr pt
      obtain s where s: "readXRefTable d prev Map.empty = Inr (pos, s)" and t1: "tbl1 = s ++ tbl"
        by auto
      show ?thesis
      proof (cases "readDict d (skipSpace d (pos + 7)) []")
        case (Inl e)
        with body False Inr pt show ?thesis by (auto simp: walked_def)
      next
        case rd: (Inr dp)
        obtain dict pos2 where dp: "dp = (dict, pos2)" by (cases dp)
        from body False Inr pt rd dp
        have call: "f d (prev_of (value_dict dict)) tbl1 = Some r" by simp
        note ih = ih [OF call]
        show ?thesis
        proof (cases r)
          case (Inl e)
          then show ?thesis by (simp add: walked_def)
        next
          case r: (Inr tbl')
          from ih r obtain ss where
            ss: "revisionTables d (prev_of (value_dict dict)) = Some (Inr ss)"
            and look: "\<And>n. tbl' n = (case tbl1 n of None \<Rightarrow> newest_entry ss n | Some e \<Rightarrow> Some e)"
            by (auto simp: walked_def)
          have "revisionTables d prev = Some (Inr (s # ss))"
            using False s rd dp ss by (subst revisionTables.simps) simp
          moreover have "tbl' n = (case tbl n of None \<Rightarrow> newest_entry (s # ss) n | Some e \<Rightarrow> Some e)"
            for n
            using look [of n] t1 by (auto simp: map_add_def split: option.splits)
          ultimately show ?thesis
            using r by (auto simp: walked_def)
        qed
      qed
    qed
  qed
qed

lemma load_revisions:
  assumes "load d = Some (Inr rd)"
  shows "\<exists>revs. revisions d = Some (Inr revs) \<and> (\<forall>n. mXRefTable rd n = newest_entry revs n)"
proof -
  from assms obtain tbl trailer where n: "loadNewest d = Inr (tbl, trailer)"
    by (cases "loadNewest d") (auto simp: load_def)
  from assms n obtain y where y: "loadPrev d (prev_of trailer) tbl = Some y"
    by (cases "loadPrev d (prev_of trailer) tbl") (auto simp: load_def)
  from assms n y obtain tbl' where l: "loadPrev d (prev_of trailer) tbl = Some (Inr tbl')"
    and rd: "rd = \<lparr>mData = d, mXRefTable = tbl', mTrailerDict = trailer\<rparr>"
    by (cases y) (auto simp: load_def)
  from loadPrev_walked [OF l] obtain ss where
    ss: "revisionTables d (prev_of trailer) = Some (Inr ss)"
    and look: "\<And>n. tbl' n = (case tbl n of None \<Rightarrow> newest_entry ss n | Some e \<Rightarrow> Some e)"
    by (auto simp: walked_def)
  have "revisions d = Some (Inr (tbl # ss))"
    using n ss by (simp add: revisions_def)
  moreover have "mXRefTable rd n = newest_entry (tbl # ss) n" for n
    using look [of n] rd by (simp split: option.splits)
  ultimately show ?thesis by blast
qed

lemma load_trailer:
  assumes "load d = Some (Inr rd)"
  shows "\<exists>tbl. loadNewest d = Inr (tbl, mTrailerDict rd)"
proof -
  from assms obtain tbl trailer where n: "loadNewest d = Inr (tbl, trailer)"
    by (cases "loadNewest d") (auto simp: load_def)
  from assms n obtain y where y: "loadPrev d (prev_of trailer) tbl = Some y"
    by (cases "loadPrev d (prev_of trailer) tbl") (auto simp: load_def)
  from assms n y have "mTrailerDict rd = trailer"
    by (cases y) (auto simp: load_def)
  with n show ?thesis by simp
qed

text \<open>Evaluating \<^verbatim>\<open>load\<close> on \<^const>\<open>two_revisions\<close>.\<close>

lemma readXRefEntries_unfold:
  "0 < k \<Longrightarrow> readXRefEntries d pos objNum k res
     = readXRefEntries d (pos + 20) (objNum + 1) (k - 1)
         (if res objNum = None then res(objNum \<mapsto> readXRefEntry d pos objNum) else res)"
  by (cases k) simp_all

lemmas readXRefSections_eval =
  readXRefSections.simps [of _ 0] readXRefSections.simps [of _ 1]
  readXRefSections.simps [of _ "numeral n"] readXRefSections.simps [of _ "- numeral n"] for n

lemmas loadPrev_eval =
  loadPrev.simps [of _ 0] loadPrev.simps [of _ 1]
  loadPrev.simps [of _ "numeral n"] loadPrev.simps [of _ "- numeral n"] for n

lemmas load_eval =
  readXRefEntry_def readXRefEntries_unfold readXRefSections_eval readXRefTable_def prev_of_def
  loadNewest_def loadPrev_eval load_def

lemma two_revisions_newest:
  "loadNewest two_revisions = Inr (newest_table, [(''Root'', Link 1 0), (''Prev'', Number 9)])"
  by (simp add: two_revisions_def newest_table_def reader_eval load_eval)

lemma two_revisions_older:
  "readXRefTable two_revisions 9 newest_table = Inr (58, merged_table)"
  by (simp add: two_revisions_def newest_table_def merged_table_def reader_eval load_eval)

lemma two_revisions_older_trailer:
  "readDict two_revisions (skipSpace two_revisions 65) [] = Inr (Dict [(''Info'', Link 9 0)], 81)"
  by (simp add: two_revisions_def reader_eval)

lemma two_revisions_load: "load two_revisions = Some (Inr two_revisions_reader)"
proof -
  have p9: "prev_of [(''Root'', Link 1 0), (''Prev'', Number 9)] = 9"
    by (simp add: prev_of_def dict_value_def to_qint64_def)
  have p0: "prev_of [(''Info'', Link 9 0)] = 0"
    by (simp add: prev_of_def dict_value_def to_qint64_def)
  have "loadPrev two_revisions 0 merged_table = Some (Inr merged_table)"
    by (subst loadPrev.simps) simp
  then have "loadPrev two_revisions 9 newest_table = Some (Inr merged_table)"
    by (subst loadPrev.simps)
       (simp add: two_revisions_older two_revisions_older_trailer p0)
  then show ?thesis
    by (simp add: load_def two_revisions_newest p9 two_revisions_reader_def)
qed

text \<open>
  C1. When \<^verbatim>\<open>load\<close> returns, the merged table holds for every object number the
  entry of the newest revision that defines it: the first, in the order of the walk from
  the last \<^verbatim>\<open>startxref\<close> along \<open>Prev\<close>, of the revisions' own tables that has the
  number. An entry that is in the table is never replaced, neither by reading a segment
  nor by the rest of the walk.
\<close>

theorem xref_newest_revision_wins:
  "(load d = Some (Inr rd) \<longrightarrow>
      (\<exists>revs. revisions d = Some (Inr revs)
         \<and> (\<forall>n. mXRefTable rd n = newest_entry revs n)))
   \<and> (readXRefTable d pos tbl = Inr (p, tbl') \<and> tbl n = Some e \<longrightarrow> tbl' n = Some e)
   \<and> (loadPrev d prev tbl = Some (Inr tbl') \<and> tbl n = Some e \<longrightarrow> tbl' n = Some e)"
proof (intro conjI impI)
  assume "load d = Some (Inr rd)"
  then show "\<exists>revs. revisions d = Some (Inr revs)
      \<and> (\<forall>n. mXRefTable rd n = newest_entry revs n)"
    by (rule load_revisions)
next
  assume "readXRefTable d pos tbl = Inr (p, tbl') \<and> tbl n = Some e"
  then show "tbl' n = Some e"
    using readXRefTable_keeps by blast
next
  assume a: "loadPrev d prev tbl = Some (Inr tbl') \<and> tbl n = Some e"
  then have "walked d prev tbl (Inr tbl')"
    using loadPrev_walked by blast
  then obtain ss where "tbl' n = (case tbl n of None \<Rightarrow> newest_entry ss n | Some e \<Rightarrow> Some e)"
    by (auto simp: walked_def)
  with a show "tbl' n = Some e" by simp
qed

theorem xref_newest_revision_wins_witness:
  "load two_revisions = Some (Inr two_revisions_reader)
   \<and> (\<exists>revs. revisions two_revisions = Some (Inr revs)
         \<and> (\<forall>n. mXRefTable two_revisions_reader n = newest_entry revs n))
   \<and> readXRefTable two_revisions 9 newest_table = Inr (58, merged_table)
   \<and> newest_table 5
       = Some \<lparr>entry_pos = 200, entry_objNum = 5, entry_genNum = 0, entry_type = Used\<rparr>
   \<and> merged_table 5
       = Some \<lparr>entry_pos = 200, entry_objNum = 5, entry_genNum = 0, entry_type = Used\<rparr>
   \<and> mXRefTable two_revisions_reader 5
       = Some \<lparr>entry_pos = 200, entry_objNum = 5, entry_genNum = 0, entry_type = Used\<rparr>"
proof -
  let ?e = "\<lparr>entry_pos = 200, entry_objNum = 5, entry_genNum = 0, entry_type = Used\<rparr>"
  have n5: "newest_table 5 = Some ?e"
    by (simp add: newest_table_def)
  note t = xref_newest_revision_wins [of two_revisions two_revisions_reader 9 newest_table 58
      merged_table 5 ?e]
  have r: "\<exists>revs. revisions two_revisions = Some (Inr revs)
      \<and> (\<forall>n. mXRefTable two_revisions_reader n = newest_entry revs n)"
    using t [THEN conjunct1] two_revisions_load by simp
  have m5: "merged_table 5 = Some ?e"
    using t [THEN conjunct2, THEN conjunct1] two_revisions_older n5 by simp
  then have "mXRefTable two_revisions_reader 5 = Some ?e"
    by (simp add: two_revisions_reader_def)
  with two_revisions_load r two_revisions_older n5 m5 show ?thesis
    by (simp only: simp_thms)
qed

section \<open>The trailer\<close>

text \<open>
  C3, as amended. When \<^verbatim>\<open>load\<close> returns, the trailer dictionary of the reader is the
  trailer dictionary of the newest revision, the one the last \<^verbatim>\<open>startxref\<close> points
  to, and nothing else: the trailers of the older revisions are read for their
  \<open>Prev\<close> only.
\<close>

theorem trailer_is_newest_trailer:
  assumes "load d = Some (Inr rd)"
  shows "\<exists>tbl. loadNewest d = Inr (tbl, mTrailerDict rd)"
  using assms by (rule load_trailer)

theorem trailer_is_newest_trailer_witness:
  "load two_revisions = Some (Inr two_revisions_reader)
   \<and> (\<exists>tbl. loadNewest two_revisions = Inr (tbl, mTrailerDict two_revisions_reader))
   \<and> mTrailerDict two_revisions_reader = [(''Root'', Link 1 0), (''Prev'', Number 9)]"
  using trailer_is_newest_trailer [OF two_revisions_load] two_revisions_load
  by (simp add: two_revisions_reader_def)

text \<open>
  C3 as stated fails for a key that only an older trailer has: in
  \<^const>\<open>two_revisions\<close> the older trailer has \<open>Info\<close>, which is in the union of the
  two trailers and not in the trailer of the reader.
\<close>

theorem trailer_lacks_older_keys:
  "load two_revisions = Some (Inr two_revisions_reader)
   \<and> loadNewest two_revisions = Inr (newest_table, [(''Root'', Link 1 0), (''Prev'', Number 9)])
   \<and> readDict two_revisions 66 [] = Inr (Dict [(''Info'', Link 9 0)], 81)
   \<and> dict_value (trailer_union [[(''Root'', Link 1 0), (''Prev'', Number 9)],
                                 [(''Info'', Link 9 0)]]) ''Info'' = Link 9 0
   \<and> dict_value (mTrailerDict two_revisions_reader) ''Info'' = Undefined"
proof -
  have "skipSpace two_revisions 65 = 66"
    by (simp add: two_revisions_def reader_eval)
  with two_revisions_older_trailer
  have "readDict two_revisions 66 [] = Inr (Dict [(''Info'', Link 9 0)], 81)"
    by simp
  with two_revisions_load two_revisions_newest show ?thesis
    by (simp add: dict_value_def two_revisions_reader_def)
qed

section \<open>End-of-line markers in literal strings\<close>

text \<open>
  C8. An unescaped line feed inside a literal string is kept as a line feed, and an
  unescaped carriage return is kept as a carriage return (byte \<^verbatim>\<open>0x0D\<close>): the
  branch for \<^verbatim>\<open>'\r'\<close> appends \<^verbatim>\<open>'\r'\<close>, where the comment above the function
  says that the result is a line feed whichever end-of-line marker was read.
\<close>

theorem bare_carriage_return_kept:
  "readLiteralString [CHR ''('', CHR ''a'', CHR 0x0A, CHR ''b'', CHR '')''] 0
     = Inr (String [CHR ''a'', CHR 0x0A, CHR ''b''] LiteralEncoded, 5)
   \<and> readLiteralString [CHR ''('', CHR ''a'', CHR 0x0D, CHR ''b'', CHR '')''] 0
     = Inr (String [CHR ''a'', CHR 0x0D, CHR ''b''] LiteralEncoded, 5)"
  by code_simp

end
